theory Spec2Isabelle
  imports Main "HOL-Library.Word"
begin

section \<open>QS port to POSIX: constants of \<^verbatim>\<open>qs_port.cpp\<close>\<close>

text \<open>
  The port file \<^verbatim>\<open>src/qpcpp/ports/posix/qs_port.cpp\<close> connects the QS software-tracing
  ring buffer to a TCP socket. The operating system (sockets, name resolution, the
  clock) and the QS ring buffer (\<^verbatim>\<open>QS::getBlock\<close>, \<^verbatim>\<open>QS::rxParse\<close>, the critical-section
  macros) are outside the file: calls to them are recorded as events of a trace, and
  their results are taken from an environment that every theorem quantifies over.
\<close>

type_synonym addr = int
type_synonym byte = "8 word"

definition QS_TX_SIZE :: nat where "QS_TX_SIZE = 8 * 1024"
definition QS_RX_SIZE :: nat where "QS_RX_SIZE = 2 * 1024"
definition QS_TX_CHUNK :: "16 word" where "QS_TX_CHUNK = of_nat QS_TX_SIZE"
definition QS_TIMEOUT_MS :: int where "QS_TIMEOUT_MS = 10"
definition INVALID_SOCKET :: int where "INVALID_SOCKET = - 1"
definition SOCKET_ERROR :: int where "SOCKET_ERROR = - 1"

text \<open>\<^verbatim>\<open>c_timeout = { 0, QS_TIMEOUT_MS*1000000L }\<close>: seconds and nanoseconds.\<close>

definition c_timeout :: "int \<times> int" where
  "c_timeout = (0, QS_TIMEOUT_MS * 1000000)"

text \<open>
  \<^verbatim>\<open>EWOULDBLOCK\<close> and \<^verbatim>\<open>EAGAIN\<close> come from the platform's \<^verbatim>\<open>errno.h\<close>; the values are
  those of Linux. No proof below unfolds them except to evaluate a concrete run.
\<close>

definition EAGAIN :: int where "EAGAIN = 11"
definition EWOULDBLOCK :: int where "EWOULDBLOCK = 11"

section \<open>Endpoint parsing in \<^verbatim>\<open>QS::onStartup\<close>\<close>

text \<open>
  A C string is a \<open>string\<close> read through \<open>c_at\<close>: the terminating NUL is what is read
  at the index just past the characters. \<open>cstr\<close> is the C string that starts at the
  beginning of a character array, \<open>cstr_from\<close> the one that starts at an offset.
\<close>

definition NUL :: char where "NUL = CHR 0x00"

definition c_at :: "string \<Rightarrow> nat \<Rightarrow> char" where
  "c_at s i = (if i < length s then s ! i else NUL)"

definition cstr :: "char list \<Rightarrow> string" where
  "cstr buf = takeWhile (\<lambda>c. c \<noteq> NUL) buf"

definition cstr_from :: "string \<Rightarrow> nat \<Rightarrow> string" where
  "cstr_from s i = cstr (drop i s)"

text \<open>
  \<^verbatim>\<open>char hostName[128]\<close>. A write through \<^verbatim>\<open>dst\<close> outside the array is undefined
  behaviour in C++; the model makes it the fault \<open>OutOfBounds\<close>.
\<close>

definition sizeof_hostName :: nat where "sizeof_hostName = 128"

datatype fault = OutOfBounds

definition poke :: "char list \<Rightarrow> nat \<Rightarrow> char \<Rightarrow> fault + char list" where
  "poke buf i c = (if i < length buf then Inr (buf[i := c]) else Inl OutOfBounds)"

text \<open>
  The copy loop
  \<^verbatim>\<open>while ((*src != '\0') && (*src != ':') && (dst < &hostName[sizeof(hostName) - 1]))
      { *dst++ = *src++; }\<close>
  with \<^verbatim>\<open>src\<close> and \<^verbatim>\<open>dst\<close> as indices into the argument and into \<^verbatim>\<open>hostName\<close>.
\<close>

function copy_host :: "string \<Rightarrow> nat \<Rightarrow> char list \<Rightarrow> nat \<Rightarrow> fault + (nat \<times> char list \<times> nat)" where
  "copy_host arg src hostName dst =
     (if c_at arg src \<noteq> NUL \<and> c_at arg src \<noteq> CHR '':'' \<and> dst < sizeof_hostName - 1
      then (case poke hostName dst (c_at arg src) of
              Inl e \<Rightarrow> Inl e
            | Inr h \<Rightarrow> copy_host arg (src + 1) h (dst + 1))
      else Inr (src, hostName, dst))"
  by pat_completeness auto
termination
  by (relation "measure (\<lambda>(arg, src, hostName, dst). sizeof_hostName - dst)") auto

declare copy_host.simps [simp del]

text \<open>
  The loop followed by \<^verbatim>\<open>*dst = '\0'\<close>. The result is the final \<^verbatim>\<open>src\<close>, the array and
  the final \<^verbatim>\<open>dst\<close>.
\<close>

definition extract_host :: "string \<Rightarrow> char list \<Rightarrow> fault + (nat \<times> char list \<times> nat)" where
  "extract_host arg hostName =
     (case copy_host arg 0 hostName 0 of
        Inl e \<Rightarrow> Inl e
      | Inr (src, h, dst) \<Rightarrow>
          (case poke h dst NUL of
             Inl e \<Rightarrow> Inl e
           | Inr h' \<Rightarrow> Inr (src, h', dst)))"

text \<open>
  Lines 97 to 113 of the source: \<^verbatim>\<open>arg\<close> is \<open>None\<close> for \<^verbatim>\<open>nullptr\<close>; the second argument
  is the uninitialised content of \<^verbatim>\<open>hostName\<close>. The result is the array and the string
  \<^verbatim>\<open>serviceName\<close> points to.
\<close>

definition parse_endpoint :: "string option \<Rightarrow> char list \<Rightarrow> fault + (char list \<times> string)" where
  "parse_endpoint arg hostName =
     (let a = (case arg of Some s \<Rightarrow> s | None \<Rightarrow> ''localhost'') in
      case extract_host a hostName of
        Inl e \<Rightarrow> Inl e
      | Inr (src, h, dst) \<Rightarrow>
          Inr (h, if c_at a src = CHR '':'' then cstr_from a (src + 1) else ''6601''))"

section \<open>Time stamps: \<^verbatim>\<open>QS::onGetTime\<close>\<close>

text \<open>
  \<^verbatim>\<open>struct timespec\<close> as filled in by \<^verbatim>\<open>clock_gettime(CLOCK_MONOTONIC_RAW, &tspec)\<close>.
  The division of C++ truncates towards zero. \<^verbatim>\<open>QSTimeCtr\<close> is declared outside the
  file; its width is the type parameter \<open>'w\<close>, and the cast keeps the low bits.
\<close>

record timespec =
  tv_sec :: int
  tv_nsec :: int

definition c_div :: "int \<Rightarrow> int \<Rightarrow> int" where
  "c_div a b = sgn a * sgn b * (\<bar>a\<bar> div \<bar>b\<bar>)"

definition onGetTime :: "timespec \<Rightarrow> 'w::len word" where
  "onGetTime tspec = word_of_int (tv_sec tspec * 10000000 + c_div (tv_nsec tspec) 100)"

text \<open>The order of two clock readings, and a reading that is normalised.\<close>

definition ts_le :: "timespec \<Rightarrow> timespec \<Rightarrow> bool" where
  "ts_le a b \<longleftrightarrow> tv_sec a < tv_sec b \<or> (tv_sec a = tv_sec b \<and> tv_nsec a \<le> tv_nsec b)"

definition ts_valid :: "timespec \<Rightarrow> bool" where
  "ts_valid a \<longleftrightarrow> 0 \<le> tv_nsec a \<and> tv_nsec a < 1000000000"

definition ticks :: "timespec \<Rightarrow> int" where
  "ticks a = tv_sec a * 10000000 + tv_nsec a div 100"

section \<open>The world the port acts on\<close>

text \<open>
  Diagnostics written with \<^verbatim>\<open>FPRINTF_S(stderr, ...)\<close>, one constructor for each message
  of the file, with the values it prints.
\<close>

datatype diag =
    Cannot_resolve string string int
  | Cannot_connect string string
  | Config_failed
  | Nonblocking_failed
  | Invalid_socket
  | Send_error int

record addrinfo =
  ai_family :: int
  ai_socktype :: int
  ai_protocol :: int
  ai_addr :: nat

text \<open>
  Every call that leaves the file is an event. \<open>Send s data n r e\<close> is
  \<^verbatim>\<open>send(s, data, n, 0)\<close> returning \<open>r\<close> with \<^verbatim>\<open>errno\<close> \<open>e\<close>; \<open>GetBlock q data n\<close> is
  \<^verbatim>\<open>getBlock(&nBytes)\<close> called with \<^verbatim>\<open>nBytes == q\<close>, returning \<open>data\<close> (0 for the null
  pointer) and leaving \<open>n\<close> in \<^verbatim>\<open>nBytes\<close>.
\<close>

datatype event =
    Crit_E
  | Crit_X
  | GetBlock "16 word" addr "16 word"
  | Send int addr "16 word" int int
  | Nanosleep "int \<times> int"
  | Stderr diag
  | Recv int int int
  | RxParse
  | InitBuf nat
  | RxInitBuf nat
  | Getaddrinfo string string int
  | Freeaddrinfo
  | Socket addrinfo int
  | Connect int addrinfo int
  | Close int
  | Fcntl_getfl int int
  | Fcntl_setfl int int int
  | Setsockopt int string int
  | Exit int

text \<open>
  The state the file reads and writes: its own \<^verbatim>\<open>l_sock\<close>, the transmit ring buffer
  of QS (of a type \<open>'rb\<close> this file never looks into), the cursors of \<^verbatim>\<open>QS::rxPriv_\<close>,
  and the trace of events so far.
\<close>

record 'rb world =
  l_sock :: int
  qs_rb :: 'rb
  rx_buf :: "byte list"
  rx_end :: int
  rx_head :: int
  rx_tail :: int
  trace :: "event list"

text \<open>
  The environment: what each external call answers. \<^verbatim>\<open>QS::getBlock\<close> is a function of
  the ring buffer and of the requested size. The answers of the operating system may
  depend on everything that has happened so far, so they take the trace.
\<close>

record 'rb env =
  getBlock :: "'rb \<Rightarrow> 16 word \<Rightarrow> addr \<times> 16 word \<times> 'rb"
  send :: "event list \<Rightarrow> int \<Rightarrow> addr \<Rightarrow> 16 word \<Rightarrow> int \<times> int"
  recv :: "event list \<Rightarrow> int \<Rightarrow> int \<Rightarrow> int \<times> byte list"
  getaddrinfo :: "string \<Rightarrow> string \<Rightarrow> int \<times> addrinfo list"
  socket :: "event list \<Rightarrow> addrinfo \<Rightarrow> int"
  connect :: "event list \<Rightarrow> int \<Rightarrow> addrinfo \<Rightarrow> int"
  fcntl_getfl :: "event list \<Rightarrow> int \<Rightarrow> int"
  fcntl_setfl :: "event list \<Rightarrow> int \<Rightarrow> int \<Rightarrow> int"
  o_nonblock :: "int \<Rightarrow> int"

definition emit :: "event \<Rightarrow> 'rb world \<Rightarrow> 'rb world" where
  "emit ev w = w\<lparr>trace := trace w @ [ev]\<rparr>"

section \<open>\<^verbatim>\<open>QS::onFlush\<close>\<close>

text \<open>How the \<^verbatim>\<open>for (;;)\<close> loop is left: by \<^verbatim>\<open>break\<close>, or by \<^verbatim>\<open>return\<close> from the function.\<close>

datatype outcome = Break | Return

text \<open>
  The \<^verbatim>\<open>for (;;)\<close> loop of \<^verbatim>\<open>QS::onFlush\<close> (lines 213 to 238), with the locals \<^verbatim>\<open>data\<close> and
  \<^verbatim>\<open>nBytes\<close> as arguments. It need not terminate: a socket that reports would-block
  for ever keeps it running, which is the value \<open>None\<close>.
\<close>

partial_function (option) onFlush_send ::
  "'rb env \<Rightarrow> 'rb world \<Rightarrow> addr \<Rightarrow> 16 word \<Rightarrow> (outcome \<times> 'rb world) option" where
  "onFlush_send env w data nBytes =
     (let r = send env (trace w) (l_sock w) data nBytes;
          nSent = fst r;
          errno = snd r;
          w1 = emit (Send (l_sock w) data nBytes nSent errno) w
      in if nSent = SOCKET_ERROR then
           if errno = EWOULDBLOCK \<or> errno = EAGAIN then
             onFlush_send env (emit (Nanosleep c_timeout) w1) data nBytes
           else Some (Return, emit (Stderr (Send_error errno)) w1)
         else if nSent < uint nBytes then
           onFlush_send env (emit (Nanosleep c_timeout) w1)
             (data + nSent) (nBytes - word_of_int nSent)
         else Some (Break, w1))"

text \<open>
  The \<^verbatim>\<open>while\<close> loop (lines 211 to 242), entered inside the critical section with the
  size \<^verbatim>\<open>nBytes\<close> to request.
\<close>

partial_function (option) onFlush_loop ::
  "'rb env \<Rightarrow> 'rb world \<Rightarrow> 16 word \<Rightarrow> 'rb world option" where
  "onFlush_loop env w nBytes =
     (let g = getBlock env (qs_rb w) nBytes;
          data = fst g;
          n = fst (snd g);
          w1 = emit (GetBlock nBytes data n) (w\<lparr>qs_rb := snd (snd g)\<rparr>)
      in if data \<noteq> 0 then
           Option.bind (onFlush_send env (emit Crit_X w1) data n)
             (\<lambda>r. if fst r = Return then Some (snd r)
                  else onFlush_loop env (emit Crit_E (snd r)) QS_TX_CHUNK)
         else Some (emit Crit_X w1))"

definition onFlush :: "'rb env \<Rightarrow> 'rb world \<Rightarrow> 'rb world option" where
  "onFlush env w =
     (if l_sock w = INVALID_SOCKET then Some (emit (Stderr Invalid_socket) w)
      else onFlush_loop env (emit Crit_E w) QS_TX_CHUNK)"

section \<open>\<^verbatim>\<open>QS_output\<close>\<close>

text \<open>The \<^verbatim>\<open>for (;;)\<close> loop of \<^verbatim>\<open>QS_output\<close> (lines 271 to 296).\<close>

partial_function (option) QS_output_send ::
  "'rb env \<Rightarrow> 'rb world \<Rightarrow> addr \<Rightarrow> 16 word \<Rightarrow> (outcome \<times> 'rb world) option" where
  "QS_output_send env w data nBytes =
     (let r = send env (trace w) (l_sock w) data nBytes;
          nSent = fst r;
          errno = snd r;
          w1 = emit (Send (l_sock w) data nBytes nSent errno) w
      in if nSent = SOCKET_ERROR then
           if errno = EWOULDBLOCK \<or> errno = EAGAIN then
             QS_output_send env (emit (Nanosleep c_timeout) w1) data nBytes
           else Some (Return, emit (Stderr (Send_error errno)) w1)
         else if nSent < uint nBytes then
           QS_output_send env (emit (Nanosleep c_timeout) w1)
             (data + nSent) (nBytes - word_of_int nSent)
         else Some (Break, w1))"

definition QS_output :: "'rb env \<Rightarrow> 'rb world \<Rightarrow> 'rb world option" where
  "QS_output env w =
     (if l_sock w = INVALID_SOCKET then Some (emit (Stderr Invalid_socket) w)
      else
        let g = getBlock env (qs_rb w) QS_TX_CHUNK;
            data = fst g;
            n = fst (snd g);
            w1 = emit (GetBlock QS_TX_CHUNK data n) ((emit Crit_E w)\<lparr>qs_rb := snd (snd g)\<rparr>)
        in if data \<noteq> 0 then
             map_option snd (QS_output_send env (emit Crit_X w1) data n)
           else Some (emit Crit_X w1))"

section \<open>\<^verbatim>\<open>QS_rx_input\<close>\<close>

text \<open>
  One \<^verbatim>\<open>recv\<close> into \<^verbatim>\<open>QS::rxPriv_.buf\<close>; the bytes received overwrite the start of the
  buffer. What \<^verbatim>\<open>QS::rxParse\<close> does with them is outside the file.
\<close>

definition QS_rx_input :: "'rb env \<Rightarrow> 'rb world \<Rightarrow> 'rb world" where
  "QS_rx_input env w =
     (let r = recv env (trace w) (l_sock w) (rx_end w);
          status = fst r;
          w1 = emit (Recv (l_sock w) (rx_end w) status) w
      in if status > 0 then
           emit RxParse
             (w1\<lparr>rx_buf := snd r @ drop (length (snd r)) (rx_buf w1),
                 rx_tail := 0, rx_head := status\<rparr>)
         else w1)"

section \<open>\<^verbatim>\<open>QS::onCleanup\<close> and the connection loop of \<^verbatim>\<open>QS::onStartup\<close>\<close>

definition onCleanup :: "'rb world \<Rightarrow> 'rb world" where
  "onCleanup w =
     (if l_sock w \<noteq> INVALID_SOCKET
      then (emit (Close (l_sock w)) w)\<lparr>l_sock := INVALID_SOCKET\<rparr>
      else w)"

text \<open>
  The loop \<^verbatim>\<open>for (rp = result; rp != NULL; rp = rp->ai_next)\<close> of lines 129 to 140 over
  the list of candidates. The \<^verbatim>\<open>break\<close> is the last statement of the branch taken when
  \<^verbatim>\<open>socket\<close> succeeded, after the inner \<^verbatim>\<open>if\<close> on the result of \<^verbatim>\<open>connect\<close>.
\<close>

fun connect_loop :: "'rb env \<Rightarrow> 'rb world \<Rightarrow> addrinfo list \<Rightarrow> 'rb world" where
  "connect_loop env w [] = w"
| "connect_loop env w (rp # rest) =
     (let fd = socket env (trace w) rp;
          w1 = (emit (Socket rp fd) w)\<lparr>l_sock := fd\<rparr>
      in if l_sock w1 \<noteq> INVALID_SOCKET then
           (let c = connect env (trace w1) (l_sock w1) rp;
                w2 = emit (Connect (l_sock w1) rp c) w1
            in if c = SOCKET_ERROR
               then (emit (Close (l_sock w2)) w2)\<lparr>l_sock := INVALID_SOCKET\<rparr>
               else w2)
         else connect_loop env w1 rest)"

text \<open>\<^verbatim>\<open>QS::onReset\<close>: cleanup, then \<^verbatim>\<open>exit(0)\<close>.\<close>

definition onReset :: "'rb world \<Rightarrow> 'rb world" where
  "onReset w = emit (Exit 0) (onCleanup w)"

text \<open>
  \<^verbatim>\<open>QS::onStartup\<close> as a whole. The second argument is the uninitialised content of
  \<^verbatim>\<open>hostName\<close>. The result is \<open>None\<close> when the final \<^verbatim>\<open>onFlush()\<close> never returns, a fault
  when the host copy leaves the array, and otherwise the returned \<^verbatim>\<open>bool\<close> with the new
  world. \<^verbatim>\<open>initBuf\<close> and \<^verbatim>\<open>rxInitBuf\<close> belong to QS and appear as events only;
  \<open>o_nonblock env fl\<close> stands for \<^verbatim>\<open>fl | O_NONBLOCK\<close>.

  Modelled from the spec: the macro \<^verbatim>\<open>QS_EXIT()\<close> is defined outside the file; the
  specification says that a failure to configure the socket triggers cleanup of the
  partial state, so it is taken to be \<^verbatim>\<open>QS::onCleanup()\<close>.
\<close>

definition onStartup ::
  "'rb env \<Rightarrow> string option \<Rightarrow> char list \<Rightarrow> 'rb world \<Rightarrow> (fault + bool \<times> 'rb world) option" where
  "onStartup env arg hostName w =
     (let w1 = emit (RxInitBuf QS_RX_SIZE) (emit (InitBuf QS_TX_SIZE) w) in
      case parse_endpoint arg hostName of
        Inl e \<Rightarrow> Some (Inl e)
      | Inr (h, serviceName) \<Rightarrow>
          (let host = cstr h;
               res = getaddrinfo env host serviceName;
               status = fst res;
               w2 = emit (Getaddrinfo host serviceName status) w1
           in if status \<noteq> 0 then
                Some (Inr (False, emit (Stderr (Cannot_resolve host serviceName status)) w2))
              else
                (let w3 = emit Freeaddrinfo (connect_loop env w2 (snd res)) in
                 if l_sock w3 = INVALID_SOCKET then
                   Some (Inr (False, emit (Stderr (Cannot_connect host serviceName)) w3))
                 else
                   (let fl = fcntl_getfl env (trace w3) (l_sock w3);
                        w4 = emit (Fcntl_getfl (l_sock w3) fl) w3
                    in if fl = - 1 then
                         Some (Inr (False, onCleanup (emit (Stderr Config_failed) w4)))
                       else
                         (let r = fcntl_setfl env (trace w4) (l_sock w4) (o_nonblock env fl);
                              w5 = emit (Fcntl_setfl (l_sock w4) (o_nonblock env fl) r) w4
                          in if r \<noteq> 0 then
                               Some (Inr (False, onCleanup (emit (Stderr Nonblocking_failed) w5)))
                             else
                               (let w6 = emit (Setsockopt (l_sock w5) ''SO_REUSEADDR'' 1) w5;
                                    w7 = emit (Setsockopt (l_sock w6) ''SO_LINGER'' 0) w6
                                in map_option (\<lambda>w8. Inr (True, w8)) (onFlush env w7)))))))"

section \<open>Traces of the transmit path\<close>

text \<open>
  What follows is not code of the port: it describes the traces the code produces, for
  the statements and proofs below. \<open>after w t\<close> is the world \<open>w\<close> with the events \<open>t\<close>
  appended; \<open>would_block\<close> is the test \<^verbatim>\<open>(errno == EWOULDBLOCK) || (errno == EAGAIN)\<close>.
\<close>

definition after :: "'rb world \<Rightarrow> event list \<Rightarrow> 'rb world" where
  "after w t = w\<lparr>trace := trace w @ t\<rparr>"

definition would_block :: "int \<Rightarrow> bool" where
  "would_block e \<longleftrightarrow> e = EWOULDBLOCK \<or> e = EAGAIN"

text \<open>
  \<open>retry s d n t out\<close>: \<open>t\<close> is a trace of the \<^verbatim>\<open>for (;;)\<close> loop started on socket \<open>s\<close> with
  \<^verbatim>\<open>data == d\<close> and \<^verbatim>\<open>nBytes == n\<close>, left by \<open>out\<close>. One rule for each branch of the loop body.
\<close>

inductive retry :: "int \<Rightarrow> addr \<Rightarrow> 16 word \<Rightarrow> event list \<Rightarrow> outcome \<Rightarrow> bool" where
  retry_full: "r \<noteq> SOCKET_ERROR \<Longrightarrow> \<not> r < uint n \<Longrightarrow> retry s d n [Send s d n r e] Break"
| retry_hard: "\<not> would_block e \<Longrightarrow>
     retry s d n [Send s d n SOCKET_ERROR e, Stderr (Send_error e)] Return"
| retry_block: "would_block e \<Longrightarrow> retry s d n t out \<Longrightarrow>
     retry s d n (Send s d n SOCKET_ERROR e # Nanosleep c_timeout # t) out"
| retry_part: "r \<noteq> SOCKET_ERROR \<Longrightarrow> r < uint n \<Longrightarrow>
     retry s (d + r) (n - word_of_int r) t out \<Longrightarrow>
     retry s d n (Send s d n r e # Nanosleep c_timeout # t) out"

text \<open>
  \<open>changed w w' t\<close>: from \<open>w\<close> to \<open>w'\<close> the events \<open>t\<close> were appended and nothing but the
  ring buffer may differ otherwise.
\<close>

definition changed :: "'rb world \<Rightarrow> 'rb world \<Rightarrow> event list \<Rightarrow> bool" where
  "changed w w' t \<longleftrightarrow>
     trace w' = trace w @ t \<and> l_sock w' = l_sock w \<and> rx_buf w' = rx_buf w \<and>
     rx_end w' = rx_end w \<and> rx_head w' = rx_head w \<and> rx_tail w' = rx_tail w"

text \<open>
  \<open>drain s q t\<close>: \<open>t\<close> is a trace of the \<^verbatim>\<open>while\<close> loop of \<^verbatim>\<open>QS::onFlush\<close>, whose first
  \<^verbatim>\<open>getBlock\<close> asks for \<open>q\<close> bytes: the buffer is empty, or the chunk ends in a hard error,
  or the chunk is sent and the loop goes on.
\<close>

inductive drain :: "int \<Rightarrow> 16 word \<Rightarrow> event list \<Rightarrow> bool" where
  drain_empty: "drain s q [GetBlock q 0 n, Crit_X]"
| drain_abort: "d \<noteq> 0 \<Longrightarrow> retry s d n t Return \<Longrightarrow> drain s q (GetBlock q d n # Crit_X # t)"
| drain_next: "d \<noteq> 0 \<Longrightarrow> retry s d n t Break \<Longrightarrow> drain s QS_TX_CHUNK t' \<Longrightarrow>
     drain s q (GetBlock q d n # Crit_X # t @ Crit_E # t')"

text \<open>
  \<open>occ P t\<close>: every occurrence of an event in \<open>t\<close> satisfies \<open>P\<close>, which sees the events
  before it, the event and the events after it.
\<close>

definition occ :: "('a list \<Rightarrow> 'a \<Rightarrow> 'a list \<Rightarrow> bool) \<Rightarrow> 'a list \<Rightarrow> bool" where
  "occ P t \<longleftrightarrow> (\<forall>pre ev post. t = pre @ ev # post \<longrightarrow> P pre ev post)"

fun is_Send :: "event \<Rightarrow> bool" where
  "is_Send (Send s d n r e) = True"
| "is_Send ev = False"

fun is_Stderr :: "event \<Rightarrow> bool" where
  "is_Stderr (Stderr dg) = True"
| "is_Stderr ev = False"

fun is_GetBlock :: "event \<Rightarrow> bool" where
  "is_GetBlock (GetBlock q d n) = True"
| "is_GetBlock ev = False"





fun hard_error :: "event \<Rightarrow> bool" where
  "hard_error (Send s d n r e) = (r = SOCKET_ERROR \<and> \<not> would_block e)"
| "hard_error ev = False"

definition abort_ok :: "event list \<Rightarrow> event \<Rightarrow> event list \<Rightarrow> bool" where
  "abort_ok pre ev post \<longleftrightarrow>
     (\<forall>s d n e. ev = Send s d n SOCKET_ERROR e \<longrightarrow> \<not> would_block e \<longrightarrow>
        post = [Stderr (Send_error e)] \<and> (\<forall>x\<in>set pre. \<not> is_Stderr x))"

text \<open>
  The bytes a trace moves. \<open>span p k\<close> are the \<open>k\<close> addresses from \<open>p\<close>; a send that returns
  \<open>r \<ge> 0\<close> has accepted the first \<open>r\<close> bytes at its pointer; a fetch that returns a chunk
  has handed out the bytes of that chunk. A send attempt is \<open>benign\<close> when it reports
  would-block or accepts between 0 and the requested number of bytes.
\<close>

definition span :: "addr \<Rightarrow> nat \<Rightarrow> addr list" where
  "span p k = map (\<lambda>i. p + int i) [0..<k]"

fun accepted_ev :: "(addr \<Rightarrow> byte) \<Rightarrow> event \<Rightarrow> byte list" where
  "accepted_ev mem (Send s d n r e) = (if r = SOCKET_ERROR then [] else map mem (span d (nat r)))"
| "accepted_ev mem ev = []"

fun fetched_ev :: "(addr \<Rightarrow> byte) \<Rightarrow> event \<Rightarrow> byte list" where
  "fetched_ev mem (GetBlock q d n) = (if d = 0 then [] else map mem (span d (unat n)))"
| "fetched_ev mem ev = []"

definition accepted :: "(addr \<Rightarrow> byte) \<Rightarrow> event list \<Rightarrow> byte list" where
  "accepted mem t = concat (map (accepted_ev mem) t)"

definition fetched :: "(addr \<Rightarrow> byte) \<Rightarrow> event list \<Rightarrow> byte list" where
  "fetched mem t = concat (map (fetched_ev mem) t)"

fun benign :: "event \<Rightarrow> bool" where
  "benign (Send s d n r e) = (r = SOCKET_ERROR \<and> would_block e \<or> 0 \<le> r \<and> r \<le> uint n)"
| "benign ev = True"

text \<open>\<open>single s q t\<close>: \<open>t\<close> is a trace of \<^verbatim>\<open>QS_output\<close> after it entered the critical section.\<close>

inductive single :: "int \<Rightarrow> 16 word \<Rightarrow> event list \<Rightarrow> bool" where
  single_empty: "single s q [GetBlock q 0 n, Crit_X]"
| single_chunk: "d \<noteq> 0 \<Longrightarrow> retry s d n t out \<Longrightarrow> single s q (GetBlock q d n # Crit_X # t)"


section \<open>Concrete runs\<close>

text \<open>
  A ring buffer that hands out a list of chunks, each cut to the requested size, an
  environment around a scripted \<^verbatim>\<open>send\<close>, and a world with nothing sent yet. In run A the
  first send attempt reports \<^verbatim>\<open>EAGAIN\<close>, the second accepts 2 bytes and every later one
  accepts all it is given. In run B the first attempt accepts 2 bytes and the second
  fails with \<^verbatim>\<open>ECONNRESET\<close> (104).
\<close>

definition rb_getBlock ::
  "(addr \<times> 16 word) list \<Rightarrow> 16 word \<Rightarrow> addr \<times> 16 word \<times> (addr \<times> 16 word) list" where
  "rb_getBlock rb q =
     (case rb of
        [] \<Rightarrow> (0, 0, [])
      | (d, n) # rest \<Rightarrow>
          if n \<le> q then (d, n, rest) else (d, q, (d + uint q, n - q) # rest))"

definition test_env ::
  "(event list \<Rightarrow> int \<Rightarrow> addr \<Rightarrow> 16 word \<Rightarrow> int \<times> int) \<Rightarrow> (addr \<times> 16 word) list env" where
  "test_env sendf =
     \<lparr>getBlock = rb_getBlock, send = sendf, recv = (\<lambda>t s n. (- 1, [])),
      getaddrinfo = (\<lambda>h s. (0, [])), socket = (\<lambda>t rp. 3), connect = (\<lambda>t fd rp. 0),
      fcntl_getfl = (\<lambda>t fd. 0), fcntl_setfl = (\<lambda>t fd fl. 0), o_nonblock = (\<lambda>fl. fl)\<rparr>"

definition test_world :: "int \<Rightarrow> (addr \<times> 16 word) list \<Rightarrow> (addr \<times> 16 word) list world" where
  "test_world s rb =
     \<lparr>l_sock = s, qs_rb = rb, rx_buf = [], rx_end = 0, rx_head = 0, rx_tail = 0, trace = []\<rparr>"

definition send_A :: "event list \<Rightarrow> int \<Rightarrow> addr \<Rightarrow> 16 word \<Rightarrow> int \<times> int" where
  "send_A t s d n =
     (if length t = 3 then (- 1, 11) else if length t = 5 then (2, 0) else (uint n, 0))"

definition send_B :: "event list \<Rightarrow> int \<Rightarrow> addr \<Rightarrow> 16 word \<Rightarrow> int \<times> int" where
  "send_B t s d n = (if length t = 3 then (2, 0) else (- 1, 104))"

definition trace_A :: "event list" where
  "trace_A =
     [Crit_E, GetBlock 8192 100 5, Crit_X,
      Send 3 100 5 (- 1) 11, Nanosleep (0, 10000000),
      Send 3 100 5 2 0, Nanosleep (0, 10000000),
      Send 3 102 3 3 0,
      Crit_E, GetBlock 8192 200 4, Crit_X,
      Send 3 200 4 4 0,
      Crit_E, GetBlock 8192 0 0, Crit_X]"

definition world_A :: "(addr \<times> 16 word) list world" where
  "world_A = test_world 3 [(100, 5), (200, 4)]"

definition world_A_end :: "(addr \<times> 16 word) list world" where
  "world_A_end = (test_world 3 [])\<lparr>trace := trace_A\<rparr>"

definition trace_B :: "event list" where
  "trace_B =
     [Crit_E, GetBlock 8192 100 5, Crit_X,
      Send 3 100 5 2 0, Nanosleep (0, 10000000),
      Send 3 102 3 (- 1) 104, Stderr (Send_error 104)]"

definition world_B_end :: "(addr \<times> 16 word) list world" where
  "world_B_end = (test_world 3 [(200, 4)])\<lparr>trace := trace_B\<rparr>"

definition world_B_mid :: "(addr \<times> 16 word) list world" where
  "world_B_mid = (test_world 3 [(200, 4)])\<lparr>trace := take 5 trace_B\<rparr>"

text \<open>
  Three more scripts for \<^verbatim>\<open>send\<close>. \<open>send_C\<close> is \<open>send_A\<close> with the partial answer capped by
  the requested length, so that every answer is would-block or a count between 0 and the
  request. \<open>send_W\<close> reports \<^verbatim>\<open>EAGAIN\<close> until 7 events have happened and accepts everything
  from then on: for a call that starts with an empty trace these are the first two
  attempts. \<open>send_P\<close> accepts 2 bytes at the first attempt of such a call and everything
  afterwards. \<open>world_in\<close> is a state inside the retry loop, right after the first chunk
  was fetched. \<open>rb_bytes\<close> counts the chunks and bytes a ring buffer of \<open>rb_getBlock\<close> still
  holds.
\<close>

definition send_C :: "event list \<Rightarrow> int \<Rightarrow> addr \<Rightarrow> 16 word \<Rightarrow> int \<times> int" where
  "send_C t s d n =
     (if length t = 3 then (- 1, 11) else if length t = 5 then (min 2 (uint n), 0)
      else (uint n, 0))"




definition rb_bytes :: "(addr \<times> 16 word) list \<Rightarrow> nat" where
  "rb_bytes rb = sum_list (map (\<lambda>c. Suc (unat (snd c))) rb)"

text \<open>Two clock readings one nanosecond apart, across a second boundary.\<close>

definition reading_1 :: timespec where
  "reading_1 = \<lparr>tv_sec = 5, tv_nsec = 999999999\<rparr>"

definition reading_2 :: timespec where
  "reading_2 = \<lparr>tv_sec = 6, tv_nsec = 0\<rparr>"

text \<open>
  The host portion of a configuration string: the characters before the first colon or
  NUL.
\<close>

definition host_part :: "string \<Rightarrow> string" where
  "host_part s = takeWhile (\<lambda>c. c \<noteq> NUL \<and> c \<noteq> CHR '':'') s"

text \<open>The send attempts of a world's trace, in order.\<close>

definition sends :: "'rb world \<Rightarrow> event list" where
  "sends v = filter is_Send (trace v)"

text \<open>
  A ring buffer with one chunk and an empty one; two candidate addresses and an
  environment in which \<^verbatim>\<open>socket\<close> succeeds on both and \<^verbatim>\<open>connect\<close> fails on the first only.
\<close>

definition world_one :: "(addr \<times> 16 word) list world" where
  "world_one = test_world 3 [(100, 5)]"

definition world_one_end :: "(addr \<times> 16 word) list world" where
  "world_one_end = (test_world 3 [])\<lparr>trace :=
     [Crit_E, GetBlock 8192 100 5, Crit_X,
      Send 3 100 5 (- 1) 11, Nanosleep (0, 10000000),
      Send 3 100 5 2 0, Nanosleep (0, 10000000),
      Send 3 102 3 3 0]\<rparr>"

definition world_none :: "(addr \<times> 16 word) list world" where
  "world_none = test_world 3 []"

definition cand_A :: addrinfo where
  "cand_A = \<lparr>ai_family = 2, ai_socktype = 1, ai_protocol = 6, ai_addr = 1\<rparr>"

definition cand_B :: addrinfo where
  "cand_B = \<lparr>ai_family = 2, ai_socktype = 1, ai_protocol = 6, ai_addr = 2\<rparr>"

definition env_C :: "(addr \<times> 16 word) list env" where
  "env_C = (test_env send_A)
     \<lparr>socket := (\<lambda>t rp. 3),
      connect := (\<lambda>t fd rp. if ai_addr rp = 1 then - 1 else 0)\<rparr>"

section \<open>Lemmas\<close>

lemma trace_emit [simp]: "trace (emit ev w) = trace w @ [ev]"
  by (simp add: emit_def)

lemma l_sock_emit [simp]: "l_sock (emit ev w) = l_sock w"
  by (simp add: emit_def)

lemma qs_rb_emit [simp]: "qs_rb (emit ev w) = qs_rb w"
  by (simp add: emit_def)

lemma after_Nil [simp]: "after w [] = w"
  by (simp add: after_def)

lemma after_after [simp]: "after (after w a) b = after w (a @ b)"
  by (simp add: after_def)

lemma emit_after: "emit ev w = after w [ev]"
  by (simp add: emit_def after_def)

lemma trace_after [simp]: "trace (after w t) = trace w @ t"
  by (simp add: after_def)

lemma l_sock_after [simp]: "l_sock (after w t) = l_sock w"
  by (simp add: after_def)

lemma qs_rb_after [simp]: "qs_rb (after w t) = qs_rb w"
  by (simp add: after_def)

lemma onFlush_send_retry:
  assumes "onFlush_send env (w :: 'rb world) d n = Some y"
  shows "\<exists>t. snd y = after w t \<and> retry (l_sock w) d n t (fst y)"
proof (rule onFlush_send.raw_induct
    [where P = "\<lambda>env w d n y. \<exists>t. snd y = after w t \<and> retry (l_sock w) d n t (fst y)",
     OF _ assms])
  fix f :: "'rb env \<Rightarrow> 'rb world \<Rightarrow> addr \<Rightarrow> 16 word \<Rightarrow> (outcome \<times> 'rb world) option"
  fix env :: "'rb env" and w :: "'rb world" and d n y
  assume IH: "\<And>env w d n y. f env w d n = Some y \<Longrightarrow>
     \<exists>t. snd y = after w t \<and> retry (l_sock w) d n t (fst y)"
  let ?r = "send env (trace w) (l_sock w) d n"
  let ?w1 = "emit (Send (l_sock w) d n (fst ?r) (snd ?r)) w"
  let ?w2 = "emit (Nanosleep c_timeout) ?w1"
  assume body: "(let r = send env (trace w) (l_sock w) d n;
          nSent = fst r;
          errno = snd r;
          w1 = emit (Send (l_sock w) d n nSent errno) w
      in if nSent = SOCKET_ERROR then
           if errno = EWOULDBLOCK \<or> errno = EAGAIN then
             f env (emit (Nanosleep c_timeout) w1) d n
           else Some (Return, emit (Stderr (Send_error errno)) w1)
         else if nSent < uint n then
           f env (emit (Nanosleep c_timeout) w1)
             (d + nSent) (n - word_of_int nSent)
         else Some (Break, w1)) = Some y"
  show "\<exists>t. snd y = after w t \<and> retry (l_sock w) d n t (fst y)"
  proof (cases "fst ?r = SOCKET_ERROR")
    case True
    show ?thesis
    proof (cases "would_block (snd ?r)")
      case wb: True
      with True body have "f env ?w2 d n = Some y"
        by (simp add: Let_def would_block_def)
      from IH [OF this] obtain t where
        t: "snd y = after ?w2 t" "retry (l_sock w) d n t (fst y)" by auto
      have "snd y = after w (Send (l_sock w) d n SOCKET_ERROR (snd ?r) # Nanosleep c_timeout # t)"
        using t(1) True by (simp add: emit_after)
      moreover have "retry (l_sock w) d n
          (Send (l_sock w) d n SOCKET_ERROR (snd ?r) # Nanosleep c_timeout # t) (fst y)"
        using wb t(2) by (rule retry_block)
      ultimately show ?thesis by blast
    next
      case False
      with True body
      have y: "y = (Return, emit (Stderr (Send_error (snd ?r))) ?w1)"
        by (simp add: Let_def would_block_def)
      have "snd y = after w [Send (l_sock w) d n SOCKET_ERROR (snd ?r), Stderr (Send_error (snd ?r))]"
        using y True by (simp add: emit_after)
      moreover have "retry (l_sock w) d n
          [Send (l_sock w) d n SOCKET_ERROR (snd ?r), Stderr (Send_error (snd ?r))] (fst y)"
        using False y by (simp add: retry_hard)
      ultimately show ?thesis by blast
    qed
  next
    case False
    show ?thesis
    proof (cases "fst ?r < uint n")
      case True
      with False body
      have "f env ?w2 (d + fst ?r) (n - word_of_int (fst ?r)) = Some y"
        by (simp add: Let_def)
      from IH [OF this] obtain t where
        t: "snd y = after ?w2 t"
           "retry (l_sock w) (d + fst ?r) (n - word_of_int (fst ?r)) t (fst y)" by auto
      have "snd y = after w (Send (l_sock w) d n (fst ?r) (snd ?r) # Nanosleep c_timeout # t)"
        using t(1) by (simp add: emit_after)
      moreover have "retry (l_sock w) d n
          (Send (l_sock w) d n (fst ?r) (snd ?r) # Nanosleep c_timeout # t) (fst y)"
        using False True t(2) by (rule retry_part)
      ultimately show ?thesis by blast
    next
      case nlt: False
      with \<open>fst ?r \<noteq> SOCKET_ERROR\<close> body have y: "y = (Break, ?w1)"
        by (simp add: Let_def)
      have "snd y = after w [Send (l_sock w) d n (fst ?r) (snd ?r)]"
        using y by (simp add: emit_after)
      moreover have "retry (l_sock w) d n [Send (l_sock w) d n (fst ?r) (snd ?r)] (fst y)"
        using \<open>fst ?r \<noteq> SOCKET_ERROR\<close> nlt y by (simp add: retry_full)
      ultimately show ?thesis by blast
    qed
  qed
qed

lemma QS_output_send_le:
  assumes "QS_output_send env (w :: 'rb world) d n = Some y"
  shows "onFlush_send env w d n = Some y"
proof (rule QS_output_send.raw_induct
    [where P = "\<lambda>env w d n y. onFlush_send env w d n = Some y", OF _ assms])
  fix f :: "'rb env \<Rightarrow> 'rb world \<Rightarrow> addr \<Rightarrow> 16 word \<Rightarrow> (outcome \<times> 'rb world) option"
  fix env :: "'rb env" and w :: "'rb world" and d n y
  assume IH: "\<And>env w d n y. f env w d n = Some y \<Longrightarrow> onFlush_send env w d n = Some y"
  assume body: "(let r = send env (trace w) (l_sock w) d n;
          nSent = fst r;
          errno = snd r;
          w1 = emit (Send (l_sock w) d n nSent errno) w
      in if nSent = SOCKET_ERROR then
           if errno = EWOULDBLOCK \<or> errno = EAGAIN then
             f env (emit (Nanosleep c_timeout) w1) d n
           else Some (Return, emit (Stderr (Send_error errno)) w1)
         else if nSent < uint n then
           f env (emit (Nanosleep c_timeout) w1)
             (d + nSent) (n - word_of_int nSent)
         else Some (Break, w1)) = Some y"
  show "onFlush_send env w d n = Some y"
    using body
    by (subst onFlush_send.simps) (auto simp: Let_def dest: IH split: if_splits)
qed

lemma onFlush_send_le:
  assumes "onFlush_send env (w :: 'rb world) d n = Some y"
  shows "QS_output_send env w d n = Some y"
proof (rule onFlush_send.raw_induct
    [where P = "\<lambda>env w d n y. QS_output_send env w d n = Some y", OF _ assms])
  fix f :: "'rb env \<Rightarrow> 'rb world \<Rightarrow> addr \<Rightarrow> 16 word \<Rightarrow> (outcome \<times> 'rb world) option"
  fix env :: "'rb env" and w :: "'rb world" and d n y
  assume IH: "\<And>env w d n y. f env w d n = Some y \<Longrightarrow> QS_output_send env w d n = Some y"
  assume body: "(let r = send env (trace w) (l_sock w) d n;
          nSent = fst r;
          errno = snd r;
          w1 = emit (Send (l_sock w) d n nSent errno) w
      in if nSent = SOCKET_ERROR then
           if errno = EWOULDBLOCK \<or> errno = EAGAIN then
             f env (emit (Nanosleep c_timeout) w1) d n
           else Some (Return, emit (Stderr (Send_error errno)) w1)
         else if nSent < uint n then
           f env (emit (Nanosleep c_timeout) w1)
             (d + nSent) (n - word_of_int nSent)
         else Some (Break, w1)) = Some y"
  show "QS_output_send env w d n = Some y"
    using body
    by (subst QS_output_send.simps) (auto simp: Let_def dest: IH split: if_splits)
qed

lemma QS_output_send_eq: "QS_output_send env w d n = onFlush_send env w d n"
proof (cases "QS_output_send env w d n")
  case None
  show ?thesis
  proof (cases "onFlush_send env w d n")
    case None
    with \<open>QS_output_send env w d n = None\<close> show ?thesis by simp
  next
    case (Some y)
    from onFlush_send_le [OF this] None show ?thesis by simp
  qed
next
  case (Some y)
  from QS_output_send_le [OF this] Some show ?thesis by simp
qed

lemma changed_after: "changed w (after w t) t"
  by (simp add: changed_def after_def)

lemma changed_rb_after: "changed w (after (w\<lparr>qs_rb := rb\<rparr>) t) t"
  by (simp add: changed_def after_def)

lemma changed_trans: "changed w w1 t1 \<Longrightarrow> changed w1 w2 t2 \<Longrightarrow> changed w w2 (t1 @ t2)"
  by (simp add: changed_def)

lemma onFlush_loop_drain:
  assumes "onFlush_loop env (w :: 'rb world) q = Some w'"
  shows "\<exists>t. changed w w' t \<and> drain (l_sock w) q t"
proof (rule onFlush_loop.raw_induct
    [where P = "\<lambda>env w q w'. \<exists>t. changed w w' t \<and> drain (l_sock w) q t", OF _ assms])
  fix f :: "'rb env \<Rightarrow> 'rb world \<Rightarrow> 16 word \<Rightarrow> 'rb world option"
  fix env :: "'rb env" and w :: "'rb world" and q w'
  assume IH: "\<And>env w q w'. f env w q = Some w' \<Longrightarrow>
     \<exists>t. changed w w' t \<and> drain (l_sock w) q t"
  let ?g = "getBlock env (qs_rb w) q"
  let ?d = "fst ?g"
  let ?n = "fst (snd ?g)"
  let ?w1 = "emit (GetBlock q ?d ?n) (w\<lparr>qs_rb := snd (snd ?g)\<rparr>)"
  assume body: "(let g = getBlock env (qs_rb w) q;
          data = fst g;
          n = fst (snd g);
          w1 = emit (GetBlock q data n) (w\<lparr>qs_rb := snd (snd g)\<rparr>)
      in if data \<noteq> 0 then
           Option.bind (onFlush_send env (emit Crit_X w1) data n)
             (\<lambda>r. if fst r = Return then Some (snd r)
                  else f env (emit Crit_E (snd r)) QS_TX_CHUNK)
         else Some (emit Crit_X w1)) = Some w'"
  have w1: "emit Crit_X ?w1 = after (w\<lparr>qs_rb := snd (snd ?g)\<rparr>) [GetBlock q ?d ?n, Crit_X]"
    by (simp add: emit_after)
  show "\<exists>t. changed w w' t \<and> drain (l_sock w) q t"
  proof (cases "?d = 0")
    case True
    with body have "w' = emit Crit_X ?w1" by (simp add: Let_def)
    with w1 have "changed w w' [GetBlock q 0 ?n, Crit_X]"
      using True by (simp add: changed_rb_after)
    then show ?thesis using drain_empty by blast
  next
    case False
    with body obtain y where y: "onFlush_send env (emit Crit_X ?w1) ?d ?n = Some y"
      and rest: "(if fst y = Return then Some (snd y)
                  else f env (emit Crit_E (snd y)) QS_TX_CHUNK) = Some w'"
      by (auto simp: Let_def bind_eq_Some_conv)
    from onFlush_send_retry [OF y] obtain t where
      t: "snd y = after (emit Crit_X ?w1) t" "retry (l_sock w) ?d ?n t (fst y)"
      by auto
    have c1: "changed w (snd y) (GetBlock q ?d ?n # Crit_X # t)"
      using t(1) w1 by (simp add: changed_rb_after)
    show ?thesis
    proof (cases "fst y")
      case Return
      with rest have "w' = snd y" by simp
      moreover have "drain (l_sock w) q (GetBlock q ?d ?n # Crit_X # t)"
        using False t(2) Return by (simp add: drain_abort)
      ultimately show ?thesis using c1 by blast
    next
      case Break
      with rest have "f env (emit Crit_E (snd y)) QS_TX_CHUNK = Some w'" by simp
      from IH [OF this] obtain t' where
        t': "changed (emit Crit_E (snd y)) w' t'" "drain (l_sock (snd y)) QS_TX_CHUNK t'"
        by auto
      have "changed (snd y) (emit Crit_E (snd y)) [Crit_E]"
        by (simp add: emit_after changed_after)
      from changed_trans [OF changed_trans [OF c1 this] t'(1)]
      have "changed w w' (GetBlock q ?d ?n # Crit_X # t @ Crit_E # t')" by simp
      moreover have "l_sock (snd y) = l_sock w" using c1 by (simp add: changed_def)
      with t'(2) t(2) False Break
      have "drain (l_sock w) q (GetBlock q ?d ?n # Crit_X # t @ Crit_E # t')"
        by (simp add: drain_next)
      ultimately show ?thesis by blast
    qed
  qed
qed

lemma occD: "occ P t \<Longrightarrow> t = pre @ ev # post \<Longrightarrow> P pre ev post"
  by (simp add: occ_def)

lemma occ_Nil: "occ P []"
  by (simp add: occ_def)

lemma occ_Cons: "occ P (e # t) \<longleftrightarrow> P [] e t \<and> occ (\<lambda>pre. P (e # pre)) t"
  by (auto simp: occ_def Cons_eq_append_conv)

lemma occ_append:
  "occ P (xs @ ys) \<longleftrightarrow>
     occ (\<lambda>pre ev post. P pre ev (post @ ys)) xs \<and> occ (\<lambda>pre. P (xs @ pre)) ys"
proof (induction xs arbitrary: P)
  case Nil
  show ?case by (simp add: occ_Nil)
next
  case (Cons x xs)
  show ?case by (simp add: occ_Cons Cons.IH)
qed

lemma occ_all: "(\<And>pre ev post. ev \<in> set t \<Longrightarrow> P pre ev post) \<Longrightarrow> occ P t"
  by (auto simp: occ_def)

lemma occ_mono: "occ P t \<Longrightarrow> (\<And>pre ev post. P pre ev post \<Longrightarrow> Q pre ev post) \<Longrightarrow> occ Q t"
  by (auto simp: occ_def)


lemma retry_no_GetBlock: "retry s d n t out \<Longrightarrow> ev \<in> set t \<Longrightarrow> \<not> is_GetBlock ev"
  by (induction rule: retry.induct) auto

lemma retry_Break_last:
  "retry s d n t Break \<Longrightarrow>
     \<exists>pre d' n' r e. t = pre @ [Send s d' n' r e] \<and> r \<noteq> SOCKET_ERROR \<and> \<not> r < uint n'"
proof (induction s d n t "Break" rule: retry.induct)
  case (retry_full r n s d e)
  then show ?case by blast
next
  case (retry_block e s d n t)
  then obtain pre d' n' r e' where "t = pre @ [Send s d' n' r e']" "r \<noteq> SOCKET_ERROR" "\<not> r < uint n'"
    by blast
  then have "Send s d n SOCKET_ERROR e # Nanosleep c_timeout # t =
      (Send s d n SOCKET_ERROR e # Nanosleep c_timeout # pre) @ [Send s d' n' r e']" by simp
  with \<open>r \<noteq> SOCKET_ERROR\<close> \<open>\<not> r < uint n'\<close> show ?case by blast
next
  case (retry_part r n s d t e)
  then obtain pre d' n' r' e' where t: "t = pre @ [Send s d' n' r' e']" "r' \<noteq> SOCKET_ERROR" "\<not> r' < uint n'"
    by blast
  then have "Send s d n r e # Nanosleep c_timeout # t =
      (Send s d n r e # Nanosleep c_timeout # pre) @ [Send s d' n' r' e']" by simp
  with t(2,3) show ?case by blast
qed

lemma retry_Break_no_Stderr: "retry s d n t Break \<Longrightarrow> ev \<in> set t \<Longrightarrow> \<not> is_Stderr ev"
  by (induction s d n t "Break" rule: retry.induct) auto

















lemma abort_ok_other: "\<not> hard_error ev \<Longrightarrow> abort_ok pre ev post"
  by (auto simp: abort_ok_def)

lemma abort_ok_extend:
  "abort_ok pre ev post \<Longrightarrow> \<forall>x\<in>set xs. \<not> is_Stderr x \<Longrightarrow> abort_ok (xs @ pre) ev post"
  by (auto simp: abort_ok_def)

lemma retry_Break_no_hard: "retry s d n t Break \<Longrightarrow> ev \<in> set t \<Longrightarrow> \<not> hard_error ev"
  by (induction s d n t "Break" rule: retry.induct) auto

lemma retry_abort_ok: "retry s d n t out \<Longrightarrow> occ abort_ok t"
proof (induction rule: retry.induct)
  case (retry_full r n s d e)
  then show ?case by (simp add: occ_Cons occ_Nil abort_ok_other)
next
  case (retry_hard e s d n)
  have "abort_ok [] (Send s d n SOCKET_ERROR e) [Stderr (Send_error e)]"
    by (simp add: abort_ok_def)
  then show ?case by (simp add: occ_Cons occ_Nil abort_ok_other)
next
  case (retry_block e s d n t out)
  have "occ (\<lambda>pre. abort_ok ([Send s d n SOCKET_ERROR e, Nanosleep c_timeout] @ pre)) t"
    by (rule occ_mono [OF retry_block.IH]) (rule abort_ok_extend, simp_all)
  with retry_block(1) show ?case by (simp add: occ_Cons abort_ok_other)
next
  case (retry_part r n s d t out e)
  have "occ (\<lambda>pre. abort_ok ([Send s d n r e, Nanosleep c_timeout] @ pre)) t"
    by (rule occ_mono [OF retry_part.IH]) (rule abort_ok_extend, simp_all)
  with retry_part(1) show ?case by (simp add: occ_Cons abort_ok_other)
qed

lemma drain_abort_ok: "drain s q t \<Longrightarrow> occ abort_ok t"
proof (induction rule: drain.induct)
  case (drain_empty s q n)
  show ?case by (simp add: occ_Cons occ_Nil abort_ok_other)
next
  case (drain_abort d s n t q)
  have "occ (\<lambda>pre. abort_ok ([GetBlock q d n, Crit_X] @ pre)) t"
    by (rule occ_mono [OF retry_abort_ok [OF drain_abort(2)]]) (rule abort_ok_extend, simp_all)
  then show ?case by (simp add: occ_Cons abort_ok_other)
next
  case (drain_next d s n t t' q)
  have 1: "occ (\<lambda>pre ev post. abort_ok (GetBlock q d n # Crit_X # pre) ev (post @ Crit_E # t')) t"
    by (rule occ_all) (simp add: abort_ok_other retry_Break_no_hard [OF drain_next(2)])
  have "\<forall>x\<in>set (GetBlock q d n # Crit_X # t @ [Crit_E]). \<not> is_Stderr x"
    using retry_Break_no_Stderr [OF drain_next(2)] by auto
  then have "occ (\<lambda>pre. abort_ok ((GetBlock q d n # Crit_X # t @ [Crit_E]) @ pre)) t'"
    by (intro occ_mono [OF drain_next.IH] abort_ok_extend)
  then have 2: "occ (\<lambda>pre. abort_ok (GetBlock q d n # Crit_X # t @ Crit_E # pre)) t'"
    by simp
  show ?case using 1 2 by (simp add: occ_Cons occ_append abort_ok_other)
qed

lemma span_add: "span p (a + b) = span p a @ span (p + int a) b"
proof -
  have 1: "[0..<a + b] = [0..<a] @ [a..<a + b]"
    by (rule upt_add_eq_append) simp
  have 2: "[a..<a + b] = map (\<lambda>i. i + a) [0..<b]"
    by (simp only: map_add_upt add.commute [of b a])
  have 3: "map (\<lambda>i. p + int i) (map (\<lambda>i. i + a) [0..<b]) =
      map (\<lambda>i. p + int a + int i) [0..<b]"
    by (rule nth_equalityI) simp_all
  show ?thesis
    unfolding span_def 1 map_append 2 3 ..
qed

lemma uint_sub_wi:
  fixes n :: "16 word"
  shows "uint (n - word_of_int r) = (uint n - r) mod 2 ^ 16"
proof -
  have "uint (n - word_of_int r) = uint (word_of_int (uint n - r) :: 16 word)"
    by (simp add: take_bit_eq_mod)
  also have "\<dots> = (uint n - r) mod 2 ^ 16" by (simp only: uint_word_of_int) simp
  finally show ?thesis .
qed

lemma uint_sub_sent:
  fixes n :: "16 word"
  assumes "0 \<le> r" and "r < uint n"
  shows "uint (n - word_of_int r) = uint n - r"
proof -
  have b: "uint n < 2 ^ 16" using uint_bounded [of n] by simp
  have "uint (n - word_of_int r) = (uint n - r) mod 2 ^ 16" by (rule uint_sub_wi)
  also have "\<dots> = uint n - r"
    using assms b by (intro mod_pos_pos_trivial) simp_all
  finally show ?thesis .
qed

lemma unat_sub_sent:
  fixes n :: "16 word"
  assumes "0 \<le> r" and "r < uint n"
  shows "nat r + unat (n - word_of_int r) = unat n"
proof -
  have k: "nat r + nat (k - r) = nat k" if "r < k" for k :: int
    using assms(1) that by arith
  have "unat (n - word_of_int r) = nat (uint n - r)"
    by (simp only: unat_eq_nat_uint uint_sub_sent [OF assms])
  moreover have "unat n = nat (uint n)"
    by (simp only: unat_eq_nat_uint)
  ultimately show ?thesis using k [OF assms(2)] by (simp only:)
qed

lemma accepted_Cons: "accepted mem (ev # t) = accepted_ev mem ev @ accepted mem t"
  by (simp add: accepted_def)

lemma fetched_Cons: "fetched mem (ev # t) = fetched_ev mem ev @ fetched mem t"
  by (simp add: fetched_def)

lemma accepted_Nil: "accepted mem [] = []"
  by (simp add: accepted_def)

lemma fetched_Nil: "fetched mem [] = []"
  by (simp add: fetched_def)

lemma SOCKET_ERROR_neg: "SOCKET_ERROR < 0"
  by (simp add: SOCKET_ERROR_def)

lemma retry_accepted:
  "retry s d n t out \<Longrightarrow> \<forall>ev\<in>set t. benign ev \<Longrightarrow>
     out = Break \<and> accepted mem t = map mem (span d (unat n)) \<and> fetched mem t = []"
proof (induction rule: retry.induct)
  case (retry_full r n s d e)
  from retry_full(3) retry_full(1) have "0 \<le> r \<and> r \<le> uint n" by simp
  with retry_full(2) have r: "r = uint n" by simp
  have "nat r = unat n" unfolding r by simp
  then have "accepted_ev mem (Send s d n r e) = map mem (span d (unat n))"
    using retry_full(1) by simp
  then show ?case
    by (simp only: accepted_Cons accepted_Nil fetched_Cons fetched_Nil fetched_ev.simps) simp
next
  case (retry_hard e s d n)
  from retry_hard(2) have "benign (Send s d n SOCKET_ERROR e)" by simp
  with retry_hard(1) SOCKET_ERROR_neg have False by simp
  then show ?case ..
next
  case (retry_block e s d n t out)
  from retry_block.prems have "\<forall>ev\<in>set t. benign ev" by simp
  from retry_block.IH [OF this]
  have IH: "out = Break" "accepted mem t = map mem (span d (unat n))" "fetched mem t = []"
    by simp_all
  have "accepted_ev mem (Send s d n SOCKET_ERROR e) = []" by simp
  then show ?case
    by (simp only: accepted_Cons fetched_Cons fetched_ev.simps accepted_ev.simps IH) simp
next
  case (retry_part r n s d t out e)
  from retry_part.prems have bt: "\<forall>ev\<in>set t. benign ev" by simp
  from retry_part.prems retry_part(1) have r0: "0 \<le> r" by simp
  note r = r0 retry_part(2)
  from retry_part.IH [OF bt]
  have IH: "out = Break"
    "accepted mem t = map mem (span (d + r) (unat (n - word_of_int r)))" "fetched mem t = []"
    by simp_all
  have "span d (nat r + unat (n - word_of_int r)) =
      span d (nat r) @ span (d + int (nat r)) (unat (n - word_of_int r))"
    by (rule span_add)
  then have sp: "span d (unat n) = span d (nat r) @ span (d + r) (unat (n - word_of_int r))"
    by (simp only: unat_sub_sent [OF r] int_nat_eq r0 if_True)
  have a: "accepted_ev mem (Send s d n r e) = map mem (span d (nat r))"
    using retry_part(1) by simp
  have "accepted mem (Send s d n r e # Nanosleep c_timeout # t) =
      map mem (span d (nat r)) @ map mem (span (d + r) (unat (n - word_of_int r)))"
    by (simp only: accepted_Cons a IH) simp
  also have "\<dots> = map mem (span d (unat n))"
    by (simp only: sp map_append)
  finally have 1: "accepted mem (Send s d n r e # Nanosleep c_timeout # t) =
      map mem (span d (unat n))" .
  have 2: "fetched mem (Send s d n r e # Nanosleep c_timeout # t) = []"
    by (simp only: fetched_Cons fetched_ev.simps IH) simp
  from IH(1) 1 2 show ?case by blast
qed

lemma accepted_append: "accepted mem (a @ b) = accepted mem a @ accepted mem b"
  by (simp add: accepted_def)

lemma fetched_append: "fetched mem (a @ b) = fetched mem a @ fetched mem b"
  by (simp add: fetched_def)

lemma drain_accepted:
  "drain s q t \<Longrightarrow> \<forall>ev\<in>set t. benign ev \<Longrightarrow> accepted mem t = fetched mem t"
proof (induction rule: drain.induct)
  case (drain_empty s q n)
  show ?case by (simp add: accepted_def fetched_def)
next
  case (drain_abort d s n t q)
  then have "\<forall>ev\<in>set t. benign ev" by simp
  from retry_accepted [OF drain_abort(2) this] show ?case by simp
next
  case (drain_next d s n t t' q)
  then have b: "\<forall>ev\<in>set t. benign ev" "\<forall>ev\<in>set t'. benign ev" by simp_all
  from retry_accepted [OF drain_next(2) b(1), of mem]
  have t: "accepted mem t = map mem (span d (unat n))" "fetched mem t = []" by simp_all
  have "accepted mem (GetBlock q d n # Crit_X # t @ Crit_E # t') = accepted mem t @ accepted mem t'"
    by (simp add: accepted_Cons accepted_append)
  moreover have "fetched mem (GetBlock q d n # Crit_X # t @ Crit_E # t') =
      map mem (span d (unat n)) @ fetched mem t'"
    using drain_next(1) by (simp add: fetched_Cons fetched_append t(2))
  ultimately show ?case
    by (simp only: t(1) drain_next.IH [OF b(2)])
qed

lemma onFlush_drain:
  assumes "onFlush env w = Some w'" and "l_sock w \<noteq> INVALID_SOCKET"
  shows "\<exists>t. changed w w' (Crit_E # t) \<and> drain (l_sock w) QS_TX_CHUNK t"
proof -
  from assms have "onFlush_loop env (emit Crit_E w) QS_TX_CHUNK = Some w'"
    by (simp add: onFlush_def)
  from onFlush_loop_drain [OF this] obtain t where
    t: "changed (emit Crit_E w) w' t" "drain (l_sock w) QS_TX_CHUNK t" by auto
  have "changed w (emit Crit_E w) [Crit_E]" by (simp add: emit_after changed_after)
  from changed_trans [OF this t(1)] t(2) show ?thesis by auto
qed

lemma onFlush_invalid:
  "l_sock w = INVALID_SOCKET \<Longrightarrow> onFlush env w = Some (emit (Stderr Invalid_socket) w)"
  by (simp add: onFlush_def)

lemma QS_output_invalid:
  "l_sock w = INVALID_SOCKET \<Longrightarrow> QS_output env w = Some (emit (Stderr Invalid_socket) w)"
  by (simp add: QS_output_def)

lemma QS_output_single:
  assumes "QS_output env w = Some w'" and "l_sock w \<noteq> INVALID_SOCKET"
  shows "\<exists>t. changed w w' (Crit_E # t) \<and> single (l_sock w) QS_TX_CHUNK t"
proof -
  let ?g = "getBlock env (qs_rb w) QS_TX_CHUNK"
  let ?d = "fst ?g"
  let ?n = "fst (snd ?g)"
  let ?w1 = "emit (GetBlock QS_TX_CHUNK ?d ?n) ((emit Crit_E w)\<lparr>qs_rb := snd (snd ?g)\<rparr>)"
  have w1: "emit Crit_X ?w1 =
      after (w\<lparr>qs_rb := snd (snd ?g)\<rparr>) [Crit_E, GetBlock QS_TX_CHUNK ?d ?n, Crit_X]"
    by (simp add: emit_def after_def)
  show ?thesis
  proof (cases "?d = 0")
    case True
    with assms have "w' = emit Crit_X ?w1" by (simp add: QS_output_def Let_def)
    with w1 True have "changed w w' (Crit_E # [GetBlock QS_TX_CHUNK 0 ?n, Crit_X])"
      by (simp add: changed_rb_after)
    then show ?thesis using single_empty by blast
  next
    case False
    with assms obtain y where y: "QS_output_send env (emit Crit_X ?w1) ?d ?n = Some y"
      and w': "w' = snd y"
      by (auto simp: QS_output_def Let_def)
    from y have "onFlush_send env (emit Crit_X ?w1) ?d ?n = Some y"
      by (simp add: QS_output_send_eq)
    from onFlush_send_retry [OF this] obtain t where
      t: "snd y = after (emit Crit_X ?w1) t" "retry (l_sock w) ?d ?n t (fst y)" by auto
    have "changed w w' (Crit_E # GetBlock QS_TX_CHUNK ?d ?n # Crit_X # t)"
      using t(1) w1 w' by (simp add: changed_rb_after)
    moreover have "single (l_sock w) QS_TX_CHUNK (GetBlock QS_TX_CHUNK ?d ?n # Crit_X # t)"
      using False t(2) by (rule single_chunk)
    ultimately show ?thesis by blast
  qed
qed





lemma run_shape:
  assumes "onFlush env w = Some w' \<or> QS_output env w = Some w'"
    and "l_sock w \<noteq> INVALID_SOCKET"
  shows "\<exists>t. changed w w' (Crit_E # t) \<and>
           (drain (l_sock w) QS_TX_CHUNK t \<or> single (l_sock w) QS_TX_CHUNK t)"
  using assms onFlush_drain QS_output_single by blast

lemma run_invalid:
  assumes "onFlush env w = Some w' \<or> QS_output env w = Some w'"
    and "l_sock w = INVALID_SOCKET"
  shows "trace w' = trace w @ [Stderr Invalid_socket]"
  using assms by (auto simp: onFlush_invalid QS_output_invalid)



lemma onFlush_loop_unfold:
  "onFlush_loop env w nBytes =
     (let g = getBlock env (qs_rb w) nBytes;
          data = fst g;
          n = fst (snd g);
          w1 = emit (GetBlock nBytes data n) (w\<lparr>qs_rb := snd (snd g)\<rparr>)
      in if data \<noteq> 0 then
           (case onFlush_send env (emit Crit_X w1) data n of
              None \<Rightarrow> None
            | Some r \<Rightarrow> if fst r = Return then Some (snd r)
                  else onFlush_loop env (emit Crit_E (snd r)) QS_TX_CHUNK)
         else Some (emit Crit_X w1))"
  by (subst onFlush_loop.simps) (simp add: Let_def split: option.splits)

lemma run_A:
  "onFlush (test_env send_A) world_A = Some world_A_end"
  by (simp add: world_A_def world_A_end_def onFlush_def onFlush_loop_unfold onFlush_send.simps Let_def
      test_env_def test_world_def send_A_def trace_A_def rb_getBlock_def emit_def
      INVALID_SOCKET_def SOCKET_ERROR_def EAGAIN_def EWOULDBLOCK_def QS_TX_CHUNK_def
      QS_TX_SIZE_def c_timeout_def QS_TIMEOUT_MS_def)

lemma run_B: "onFlush (test_env send_B) world_A = Some world_B_end"
  by (simp add: world_A_def world_B_end_def onFlush_def onFlush_loop_unfold onFlush_send.simps
      Let_def test_env_def test_world_def send_B_def trace_B_def rb_getBlock_def emit_def
      INVALID_SOCKET_def SOCKET_ERROR_def EAGAIN_def EWOULDBLOCK_def QS_TX_CHUNK_def
      QS_TX_SIZE_def c_timeout_def QS_TIMEOUT_MS_def)




lemma onFlush_abort_ok:
  assumes "onFlush env w = Some w'" and "trace w' = trace w @ t"
  shows "occ abort_ok t \<and> l_sock w' = l_sock w"
proof (cases "l_sock w = INVALID_SOCKET")
  case True
  with assms have "t = [Stderr Invalid_socket]" "l_sock w' = l_sock w"
    by (auto simp: onFlush_invalid)
  then show ?thesis by (simp add: occ_Cons occ_Nil abort_ok_other)
next
  case False
  from onFlush_drain [OF assms(1) False] obtain u where
    u: "changed w w' (Crit_E # u)" "drain (l_sock w) QS_TX_CHUNK u" by blast
  from u(1) assms(2) have t: "t = Crit_E # u" and l: "l_sock w' = l_sock w"
    by (simp_all add: changed_def)
  have "occ (\<lambda>pre. abort_ok ([Crit_E] @ pre)) u"
    by (rule occ_mono [OF drain_abort_ok [OF u(2)]]) (rule abort_ok_extend, simp_all)
  then show ?thesis by (simp add: t l occ_Cons abort_ok_other)
qed

lemma onFlush_send_hard:
  assumes "fst (send env (trace v) (l_sock v) a b) = SOCKET_ERROR"
    and "\<not> would_block (snd (send env (trace v) (l_sock v) a b))"
  shows "onFlush_send env v a b =
     Some (Return, emit (Stderr (Send_error (snd (send env (trace v) (l_sock v) a b))))
       (emit (Send (l_sock v) a b SOCKET_ERROR (snd (send env (trace v) (l_sock v) a b))) v))"
  using assms by (subst onFlush_send.simps) (simp add: Let_def would_block_def)

lemma c_div_nonneg: "0 \<le> a \<Longrightarrow> c_div a 100 = a div 100"
  by (cases "a = 0") (simp_all add: c_div_def)

lemma onGetTime_ticks: "ts_valid a \<Longrightarrow> onGetTime a = word_of_int (ticks a)"
  by (simp add: onGetTime_def ticks_def ts_valid_def c_div_nonneg)

lemma ticks_mono:
  assumes "ts_valid a" and "ts_valid b" and "ts_le a b"
  shows "ticks a \<le> ticks b"
proof -
  have a: "tv_nsec a div 100 < 10000000" "0 \<le> tv_nsec a div 100"
    using assms(1) unfolding ts_valid_def by presburger+
  have b: "0 \<le> tv_nsec b div 100"
    using assms(2) unfolding ts_valid_def by presburger
  from assms(3) consider "tv_sec a < tv_sec b"
    | "tv_sec a = tv_sec b" "tv_nsec a \<le> tv_nsec b"
    by (auto simp: ts_le_def)
  then show ?thesis
  proof cases
    case 1
    then have "tv_sec a * 10000000 + 10000000 \<le> tv_sec b * 10000000" by simp
    with a b show ?thesis by (simp add: ticks_def)
  next
    case 2
    then have "tv_nsec a div 100 \<le> tv_nsec b div 100" by (simp add: zdiv_mono1)
    with 2 show ?thesis by (simp add: ticks_def)
  qed
qed

lemma word_of_int_le_same_window:
  assumes "k \<le> l" and "k div 2 ^ LENGTH('w) = l div 2 ^ LENGTH('w)"
  shows "(word_of_int k :: 'w::len word) \<le> word_of_int l"
proof -
  have "k mod 2 ^ LENGTH('w) = k - (k div 2 ^ LENGTH('w)) * 2 ^ LENGTH('w)"
    by (simp add: minus_div_mult_eq_mod)
  moreover have "l mod 2 ^ LENGTH('w) = l - (l div 2 ^ LENGTH('w)) * 2 ^ LENGTH('w)"
    by (simp add: minus_div_mult_eq_mod)
  ultimately have "k mod 2 ^ LENGTH('w) \<le> l mod 2 ^ LENGTH('w)"
    using assms by simp
  then show ?thesis
    by (simp add: word_le_def uint_word_of_int take_bit_eq_mod)
qed

lemma host_part_drop_stop:
  "c_at arg src = NUL \<or> c_at arg src = CHR '':'' \<Longrightarrow> host_part (drop src arg) = []"
proof (cases "src < length arg")
  case True
  assume "c_at arg src = NUL \<or> c_at arg src = CHR '':''"
  with True have "arg ! src = NUL \<or> arg ! src = CHR '':''" by (simp add: c_at_def)
  moreover from True have "drop src arg = arg ! src # drop (Suc src) arg"
    by (simp add: Cons_nth_drop_Suc)
  ultimately show ?thesis by (auto simp: host_part_def)
next
  case False
  then show ?thesis by (simp add: host_part_def)
qed

lemma host_part_drop_step:
  assumes "c_at arg src \<noteq> NUL" and "c_at arg src \<noteq> CHR '':''"
  shows "host_part (drop src arg) = c_at arg src # host_part (drop (Suc src) arg)"
proof -
  from assms(1) have lt: "src < length arg" by (auto simp: c_at_def split: if_splits)
  then have "drop src arg = arg ! src # drop (Suc src) arg"
    by (simp add: Cons_nth_drop_Suc)
  with assms lt show ?thesis by (simp add: host_part_def c_at_def)
qed

lemma copy_host_result:
  "length h = sizeof_hostName \<Longrightarrow> dst \<le> sizeof_hostName - 1 \<Longrightarrow>
     copy_host arg src h dst =
       Inr (src + length (take (sizeof_hostName - 1 - dst) (host_part (drop src arg))),
            take dst h @ take (sizeof_hostName - 1 - dst) (host_part (drop src arg)) @
              drop (dst + length (take (sizeof_hostName - 1 - dst) (host_part (drop src arg)))) h,
            dst + length (take (sizeof_hostName - 1 - dst) (host_part (drop src arg))))"
proof (induction arg src h dst rule: copy_host.induct)
  case (1 arg src h dst)
  let ?c = "c_at arg src"
  show ?case
  proof (cases "?c \<noteq> NUL \<and> ?c \<noteq> CHR '':'' \<and> dst < sizeof_hostName - 1")
    case False
    then have "take (sizeof_hostName - 1 - dst) (host_part (drop src arg)) = []"
      using host_part_drop_stop [of arg src] "1.prems"(2) by auto
    then have p0: "take (sizeof_hostName - 1 - dst) (host_part (drop src arg)) = []" .
    have e: "copy_host arg src h dst = Inr (src, h, dst)"
      by (subst copy_host.simps) (rule if_not_P, rule False)
    show ?thesis
      by (simp only: e p0 list.size add_0_right append_Nil append_take_drop_id)
  next
    case True
    then have c: "?c \<noteq> NUL" "?c \<noteq> CHR '':''" and d: "dst < sizeof_hostName - 1"
      by simp_all
    from d "1.prems"(1) have dl: "dst < length h" by simp
    then have pk: "poke h dst ?c = Inr (h[dst := ?c])" by (simp add: poke_def)
    have len: "length (h[dst := ?c]) = sizeof_hostName" using "1.prems"(1) by simp
    have d': "dst + 1 \<le> sizeof_hostName - 1" using d by simp
    let ?p' = "take (sizeof_hostName - 1 - Suc dst) (host_part (drop (Suc src) arg))"
    from "1.IH" [OF True pk len d']
    have IH: "copy_host arg (Suc src) (h[dst := ?c]) (Suc dst) =
        Inr (Suc src + length ?p',
             take (Suc dst) (h[dst := ?c]) @ ?p' @ drop (Suc dst + length ?p') (h[dst := ?c]),
             Suc dst + length ?p')"
      by simp
    have step: "copy_host arg src h dst = copy_host arg (Suc src) (h[dst := ?c]) (Suc dst)"
      using True pk by (subst copy_host.simps) simp
    have "sizeof_hostName - 1 - dst = Suc (sizeof_hostName - 1 - Suc dst)"
      using d by simp
    then have p: "take (sizeof_hostName - 1 - dst) (host_part (drop src arg)) = ?c # ?p'"
      by (simp only: host_part_drop_step [OF c] take_Suc_Cons)
    have t: "take (Suc dst) (h[dst := ?c]) = take dst h @ [?c]"
      using dl by (simp add: take_Suc_conv_app_nth)
    have dr: "drop (Suc dst + length ?p') (h[dst := ?c]) = drop (Suc dst + length ?p') h"
      by simp
    show ?thesis
      unfolding step IH p t dr by simp
  qed
qed

lemma host_part_no_NUL: "NUL \<notin> set (take k (host_part s))"
proof
  assume "NUL \<in> set (take k (host_part s))"
  then have "NUL \<in> set (host_part s)" by (rule in_set_takeD)
  then show False unfolding host_part_def by (auto dest: set_takeWhileD)
qed

lemma extract_host_result:
  assumes "length h = sizeof_hostName"
  shows "extract_host arg h =
     Inr (length (take 127 (host_part arg)),
          take 127 (host_part arg) @ NUL # drop (Suc (length (take 127 (host_part arg)))) h,
          length (take 127 (host_part arg)))"
proof -
  let ?p = "take 127 (host_part arg)"
  have k: "length ?p \<le> 127" by simp
  from copy_host_result [OF assms, of 0 arg 0]
  have c: "copy_host arg 0 h 0 = Inr (length ?p, ?p @ drop (length ?p) h, length ?p)"
    by (simp add: sizeof_hostName_def)
  have lt: "length ?p < length (?p @ drop (length ?p) h)"
    using assms k by (simp add: sizeof_hostName_def)
  have "length ?p < length h" using assms k by (simp add: sizeof_hostName_def)
  then have "drop (length ?p) h = h ! length ?p # drop (Suc (length ?p)) h"
    by (simp add: Cons_nth_drop_Suc)
  then have "(?p @ drop (length ?p) h)[length ?p := NUL] = ?p @ NUL # drop (Suc (length ?p)) h"
    by (simp add: list_update_append)
  with lt show ?thesis
    by (simp add: extract_host_def c poke_def)
qed

lemma cstr_host: "cstr (take k (host_part s) @ NUL # r) = take k (host_part s)"
proof -
  have "\<And>x. x \<in> set (take k (host_part s)) \<Longrightarrow> x \<noteq> NUL"
    using host_part_no_NUL [of k s] by auto
  then have "takeWhile (\<lambda>c. c \<noteq> NUL) (take k (host_part s) @ NUL # r) =
      take k (host_part s) @ takeWhile (\<lambda>c. c \<noteq> NUL) (NUL # r)"
    by (rule takeWhile_append2)
  then show ?thesis by (simp add: cstr_def)
qed

lemma parse_endpoint_eq:
  assumes "length h = sizeof_hostName"
  shows "parse_endpoint arg h =
     (let a = (case arg of Some s \<Rightarrow> s | None \<Rightarrow> ''localhost'');
          p = take 127 (host_part a)
      in Inr (p @ NUL # drop (Suc (length p)) h,
              if c_at a (length p) = CHR '':'' then cstr_from a (length p + 1) else ''6601''))"
  by (simp add: parse_endpoint_def extract_host_result [OF assms] Let_def)

lemma extract_host_props:
  assumes "length hostName = sizeof_hostName"
  shows "\<exists>src h dst. extract_host a hostName = Inr (src, h, dst) \<and> dst \<le> 127 \<and>
            length h = sizeof_hostName \<and> h ! dst = NUL \<and>
            drop (Suc dst) h = drop (Suc dst) hostName \<and> cstr h = take dst h"
proof -
  define p where "p = take 127 (host_part a)"
  define h where "h = p @ NUL # drop (Suc (length p)) hostName"
  have k: "length p \<le> 127" by (simp add: p_def)
  have e: "extract_host a hostName = Inr (length p, h, length p)"
    unfolding p_def h_def by (rule extract_host_result [OF assms])
  have "length h = sizeof_hostName"
    using assms k by (simp add: h_def sizeof_hostName_def)
  moreover have "h ! length p = NUL" by (simp add: h_def nth_append)
  moreover have "drop (Suc (length p)) h = drop (Suc (length p)) hostName" by (simp add: h_def)
  moreover have "cstr h = p" unfolding h_def p_def by (rule cstr_host)
  moreover have "take (length p) h = p" by (simp add: h_def)
  ultimately show ?thesis using e k by auto
qed

lemma parse_endpoint_props:
  assumes "length hostName = sizeof_hostName"
  shows "\<exists>h s. parse_endpoint arg hostName = Inr (h, s) \<and> length h = sizeof_hostName \<and>
            NUL \<in> set h"
proof -
  define p where "p = take 127 (host_part (case arg of Some s \<Rightarrow> s | None \<Rightarrow> ''localhost''))"
  have k: "length p \<le> 127" by (simp add: p_def)
  have "length (p @ NUL # drop (Suc (length p)) hostName) = sizeof_hostName"
    using assms k by (simp add: sizeof_hostName_def)
  moreover have "NUL \<in> set (p @ NUL # drop (Suc (length p)) hostName)" by simp
  ultimately show ?thesis
    unfolding parse_endpoint_eq [OF assms] Let_def p_def by blast
qed

lemma retry_Return_last:
  "retry s d n t Return \<Longrightarrow> \<exists>pre e. t = pre @ [Stderr (Send_error e)]"
proof (induction s d n t "Return" rule: retry.induct)
  case (retry_hard e s d n)
  have "[Send s d n SOCKET_ERROR e, Stderr (Send_error e)] =
      [Send s d n SOCKET_ERROR e] @ [Stderr (Send_error e)]" by simp
  then show ?case by blast
next
  case (retry_block e s d n t)
  then obtain pre e' where "t = pre @ [Stderr (Send_error e')]" by blast
  then have "Send s d n SOCKET_ERROR e # Nanosleep c_timeout # t =
      (Send s d n SOCKET_ERROR e # Nanosleep c_timeout # pre) @ [Stderr (Send_error e')]" by simp
  then show ?case by blast
next
  case (retry_part r n s d t e)
  then obtain pre e' where "t = pre @ [Stderr (Send_error e')]" by blast
  then have "Send s d n r e # Nanosleep c_timeout # t =
      (Send s d n r e # Nanosleep c_timeout # pre) @ [Stderr (Send_error e')]" by simp
  then show ?case by blast
qed

lemma onFlush_send_last:
  assumes "onFlush_send env v a b = Some y"
  shows "(is_Send (last (trace (snd y))) \<longleftrightarrow> fst y = Break) \<and>
     l_sock (snd y) = l_sock v \<and> qs_rb (snd y) = qs_rb v"
proof -
  from onFlush_send_retry [OF assms] obtain t where
    t: "snd y = after v t" "retry (l_sock v) a b t (fst y)" by auto
  have "is_Send (last (trace (snd y))) \<longleftrightarrow> fst y = Break"
  proof (cases "fst y")
    case Break
    with t(2) obtain pre d' n' r e where "t = pre @ [Send (l_sock v) d' n' r e]"
      using retry_Break_last by metis
    with t(1) Break show ?thesis by simp
  next
    case Return
    with t(2) obtain pre e where "t = pre @ [Stderr (Send_error e)]"
      using retry_Return_last by metis
    with t(1) Return show ?thesis by simp
  qed
  with t(1) show ?thesis by simp
qed

lemma onFlush_loop_empty:
  assumes "fst (getBlock env (qs_rb v) q) = 0"
  shows "onFlush_loop env v q =
     Some (emit Crit_X (emit (GetBlock q 0 (fst (snd (getBlock env (qs_rb v) q))))
       (v\<lparr>qs_rb := snd (snd (getBlock env (qs_rb v) q))\<rparr>)))"
  using assms by (subst onFlush_loop.simps) (simp add: Let_def)

lemma onFlush_unroll:
  assumes "l_sock w \<noteq> INVALID_SOCKET"
  shows "onFlush env w =
     (case QS_output env w of
        None \<Rightarrow> None
      | Some w1 \<Rightarrow> if is_Send (last (trace w1)) then onFlush env w1 else Some w1)"
proof -
  let ?g = "getBlock env (qs_rb w) QS_TX_CHUNK"
  let ?d = "fst ?g"
  let ?n = "fst (snd ?g)"
  let ?w1 = "emit (GetBlock QS_TX_CHUNK ?d ?n) ((emit Crit_E w)\<lparr>qs_rb := snd (snd ?g)\<rparr>)"
  show ?thesis
  proof (cases "?d = 0")
    case True
    then have f: "onFlush env w = Some (emit Crit_X ?w1)"
      using assms onFlush_loop_empty [of env "emit Crit_E w" QS_TX_CHUNK]
      by (simp add: onFlush_def)
    from True assms have o: "QS_output env w = Some (emit Crit_X ?w1)"
      by (simp add: QS_output_def Let_def)
    show ?thesis by (simp add: f o)
  next
    case False
    let ?r = "onFlush_send env (emit Crit_X ?w1) ?d ?n"
    from False assms have o: "QS_output env w = map_option snd ?r"
      by (simp add: QS_output_def Let_def QS_output_send_eq)
    from False assms have f: "onFlush env w =
        Option.bind ?r (\<lambda>r. if fst r = Return then Some (snd r)
           else onFlush_loop env (emit Crit_E (snd r)) QS_TX_CHUNK)"
      by (simp add: onFlush_def) (subst onFlush_loop.simps, simp add: Let_def)
    show ?thesis
    proof (cases ?r)
      case None
      then show ?thesis by (simp add: f o)
    next
      case (Some y)
      from onFlush_send_last [OF Some] assms
      have l: "is_Send (last (trace (snd y))) \<longleftrightarrow> fst y = Break"
        and s: "l_sock (snd y) \<noteq> INVALID_SOCKET" by simp_all
      show ?thesis
      proof (cases "fst y")
        case Break
        have u: "onFlush env (snd y) = onFlush_loop env (emit Crit_E (snd y)) QS_TX_CHUNK"
          using s by (simp add: onFlush_def)
        from Break l Some show ?thesis by (simp add: f o u)
      next
        case Return
        with l Some show ?thesis by (simp add: f o)
      qed
    qed
  qed
qed

lemma QS_output_empty:
  assumes "l_sock w \<noteq> INVALID_SOCKET" and "fst (getBlock env (qs_rb w) QS_TX_CHUNK) = 0"
  shows "QS_output env w =
     Some (w\<lparr>qs_rb := snd (snd (getBlock env (qs_rb w) QS_TX_CHUNK)),
            trace := trace w @
              [Crit_E, GetBlock QS_TX_CHUNK 0 (fst (snd (getBlock env (qs_rb w) QS_TX_CHUNK))),
               Crit_X]\<rparr>)"
  using assms by (simp add: QS_output_def Let_def emit_def)

lemma QS_output_one_fetch:
  assumes "l_sock w \<noteq> INVALID_SOCKET" and "QS_output env w = Some w'"
  shows "\<exists>d n r. trace w' = trace w @ Crit_E # GetBlock QS_TX_CHUNK d n # Crit_X # r \<and>
     (\<forall>ev\<in>set r. \<not> is_GetBlock ev)"
proof -
  from QS_output_single [OF assms(2,1)] obtain t where
    t: "changed w w' (Crit_E # t)" "single (l_sock w) QS_TX_CHUNK t" by blast
  from t(2) have "\<exists>d n r. t = GetBlock QS_TX_CHUNK d n # Crit_X # r \<and>
      (\<forall>ev\<in>set r. \<not> is_GetBlock ev)"
  proof cases
    case (single_empty n)
    then show ?thesis by simp
  next
    case (single_chunk d n r out)
    with retry_no_GetBlock [OF single_chunk(3)] show ?thesis by blast
  qed
  with t(1) show ?thesis by (auto simp: changed_def)
qed

lemma one_chunk_same_sends:
  assumes v: "l_sock w \<noteq> INVALID_SOCKET"
    and d: "fst (getBlock env (qs_rb w) QS_TX_CHUNK) \<noteq> 0"
    and e: "fst (getBlock env (snd (snd (getBlock env (qs_rb w) QS_TX_CHUNK))) QS_TX_CHUNK) = 0"
  shows "map_option sends (onFlush env w) = map_option sends (QS_output env w)"
proof (cases "QS_output env w")
  case None
  then show ?thesis by (simp add: onFlush_unroll [OF v])
next
  case (Some w1)
  let ?g = "getBlock env (qs_rb w) QS_TX_CHUNK"
  let ?w1 = "emit (GetBlock QS_TX_CHUNK (fst ?g) (fst (snd ?g)))
      ((emit Crit_E w)\<lparr>qs_rb := snd (snd ?g)\<rparr>)"
  from Some v d obtain y where
    y: "onFlush_send env (emit Crit_X ?w1) (fst ?g) (fst (snd ?g)) = Some y" and w1: "w1 = snd y"
    by (auto simp: QS_output_def Let_def QS_output_send_eq)
  from onFlush_send_last [OF y] w1 v
  have s: "l_sock w1 \<noteq> INVALID_SOCKET" and rb: "qs_rb w1 = snd (snd ?g)" by simp_all
  show ?thesis
  proof (cases "is_Send (last (trace w1))")
    case False
    with Some show ?thesis by (simp add: onFlush_unroll [OF v])
  next
    case True
    with Some have "onFlush env w = onFlush env w1" by (simp add: onFlush_unroll [OF v])
    also have "\<dots> = onFlush_loop env (emit Crit_E w1) QS_TX_CHUNK"
      using s by (simp add: onFlush_def)
    also have "\<dots> = Some (emit Crit_X (emit (GetBlock QS_TX_CHUNK 0
        (fst (snd (getBlock env (qs_rb (emit Crit_E w1)) QS_TX_CHUNK))))
        ((emit Crit_E w1)\<lparr>qs_rb := snd (snd (getBlock env (qs_rb (emit Crit_E w1)) QS_TX_CHUNK))\<rparr>)))"
      by (rule onFlush_loop_empty) (simp add: rb e)
    finally show ?thesis by (simp add: Some sends_def)
  qed
qed

lemma run_one: "QS_output (test_env send_A) world_one = Some world_one_end"
  by (simp add: world_one_def world_one_end_def QS_output_def QS_output_send.simps Let_def
      test_env_def test_world_def send_A_def rb_getBlock_def emit_def
      INVALID_SOCKET_def SOCKET_ERROR_def EAGAIN_def EWOULDBLOCK_def QS_TX_CHUNK_def
      QS_TX_SIZE_def c_timeout_def QS_TIMEOUT_MS_def)

lemma rx_input_never_reports:
  "\<exists>st r. trace (QS_rx_input env w) = trace w @ Recv (l_sock w) (rx_end w) st # r \<and>
     (\<forall>ev\<in>set r. \<not> is_Stderr ev)"
  by (simp add: QS_rx_input_def Let_def emit_def)

lemma connect_loop_socket_fails:
  "socket env (trace w) rp = INVALID_SOCKET \<Longrightarrow>
     connect_loop env w (rp # rest) =
       connect_loop env ((emit (Socket rp INVALID_SOCKET) w)\<lparr>l_sock := INVALID_SOCKET\<rparr>) rest"
  by (simp add: Let_def)

lemma connect_loop_socket_ok:
  "socket env (trace w) rp \<noteq> INVALID_SOCKET \<Longrightarrow>
     \<exists>fd c r. trace (connect_loop env w (rp # rest)) =
        trace w @ Socket rp fd # Connect fd rp c # r \<and>
        (r = [] \<and> c \<noteq> SOCKET_ERROR \<and> l_sock (connect_loop env w (rp # rest)) = fd \<or>
         r = [Close fd] \<and> c = SOCKET_ERROR \<and>
           l_sock (connect_loop env w (rp # rest)) = INVALID_SOCKET)"
  by (simp add: Let_def emit_def)

lemma onStartup_never_faults:
  assumes "length hostName = sizeof_hostName"
  shows "onStartup env arg hostName w \<noteq> Some (Inl e)"
proof -
  from parse_endpoint_props [OF assms] obtain h s where
    "parse_endpoint arg hostName = Inr (h, s)" by blast
  then show ?thesis
    by (auto simp: onStartup_def Let_def)
qed

lemma onStartup_resolution_failure:
  assumes "parse_endpoint arg hostName = Inr (h, s)"
    and "fst (getaddrinfo env (cstr h) s) \<noteq> 0"
  shows "\<exists>w'. onStartup env arg hostName w = Some (Inr (False, w')) \<and> l_sock w' = l_sock w"
  using assms by (simp add: onStartup_def Let_def)

lemma onFlush_send_would_block_step:
  assumes "fst (send env (trace v) (l_sock v) a b) = SOCKET_ERROR"
    and "would_block (snd (send env (trace v) (l_sock v) a b))"
  shows "onFlush_send env v a b =
     onFlush_send env
       (after v [Send (l_sock v) a b SOCKET_ERROR (snd (send env (trace v) (l_sock v) a b)),
                 Nanosleep c_timeout]) a b"
  using assms
  by (subst onFlush_send.simps) (simp add: Let_def would_block_def emit_def after_def)

lemma onFlush_send_partial_step:
  assumes "fst (send env (trace v) (l_sock v) a b) \<noteq> SOCKET_ERROR"
    and "fst (send env (trace v) (l_sock v) a b) < uint b"
  shows "onFlush_send env v a b =
     onFlush_send env
       (after v [Send (l_sock v) a b (fst (send env (trace v) (l_sock v) a b))
                   (snd (send env (trace v) (l_sock v) a b)),
                 Nanosleep c_timeout])
       (a + fst (send env (trace v) (l_sock v) a b))
       (b - word_of_int (fst (send env (trace v) (l_sock v) a b)))"
  using assms
  by (subst onFlush_send.simps) (simp add: Let_def emit_def after_def)

lemma onFlush_send_full_step:
  assumes "fst (send env (trace v) (l_sock v) a b) \<noteq> SOCKET_ERROR"
    and "\<not> fst (send env (trace v) (l_sock v) a b) < uint b"
  shows "onFlush_send env v a b =
     Some (Break, after v [Send (l_sock v) a b (fst (send env (trace v) (l_sock v) a b))
                             (snd (send env (trace v) (l_sock v) a b))])"
  using assms
  by (subst onFlush_send.simps) (simp add: Let_def emit_def after_def)









lemma onFlush_send_settles:
  assumes acc: "\<forall>t s d n. K \<le> length t \<longrightarrow> fst (send env t s d n) = uint n"
    and ben: "\<forall>t s d n. benign (Send s d n (fst (send env t s d n)) (snd (send env t s d n)))"
  shows "\<exists>t. onFlush_send env w d n = Some (Break, after w t) \<and> (\<forall>ev\<in>set t. benign ev)"
proof (induction "K - length (trace w)" arbitrary: w d n rule: less_induct)
  case less
  let ?r = "send env (trace w) (l_sock w) d n"
  let ?ev = "Send (l_sock w) d n (fst ?r) (snd ?r)"
  let ?w1 = "after w [?ev, Nanosleep c_timeout]"
  from ben have b: "benign ?ev" by blast
  have short: "length (trace w) < K" if "fst ?r = SOCKET_ERROR \<or> fst ?r < uint n"
  proof (rule ccontr)
    assume "\<not> length (trace w) < K"
    with acc have "fst ?r = uint n" by simp
    moreover have "0 \<le> uint n" by (rule uint_ge_0)
    ultimately have "0 \<le> fst ?r" "\<not> fst ?r < uint n" by simp_all
    with that show False unfolding SOCKET_ERROR_def by linarith
  qed
  consider (full) "fst ?r \<noteq> SOCKET_ERROR" "\<not> fst ?r < uint n"
    | (wb) "fst ?r = SOCKET_ERROR"
    | (part) "fst ?r \<noteq> SOCKET_ERROR" "fst ?r < uint n" by blast
  then show ?case
  proof cases
    case full
    from onFlush_send_full_step [OF full] b show ?thesis by auto
  next
    case wb
    with b have w: "would_block (snd ?r)" by (simp add: SOCKET_ERROR_def)
    from wb short have "K - length (trace ?w1) < K - length (trace w)" by simp
    from less [OF this] obtain t where
      t: "onFlush_send env ?w1 d n = Some (Break, after ?w1 t)" "\<forall>ev\<in>set t. benign ev"
      by blast
    from onFlush_send_would_block_step [OF wb w] wb t(1)
    have "onFlush_send env w d n = Some (Break, after w ([?ev, Nanosleep c_timeout] @ t))"
      by simp
    moreover from b t(2) have "\<forall>ev\<in>set ([?ev, Nanosleep c_timeout] @ t). benign ev" by simp
    ultimately show ?thesis by blast
  next
    case part
    from part short have "K - length (trace ?w1) < K - length (trace w)" by simp
    from less [OF this, of "d + fst ?r" "n - word_of_int (fst ?r)"] obtain t where
      t: "onFlush_send env ?w1 (d + fst ?r) (n - word_of_int (fst ?r)) =
            Some (Break, after ?w1 t)" "\<forall>ev\<in>set t. benign ev"
      by blast
    from onFlush_send_partial_step [OF part] t(1)
    have "onFlush_send env w d n = Some (Break, after w ([?ev, Nanosleep c_timeout] @ t))"
      by simp
    moreover from b t(2) have "\<forall>ev\<in>set ([?ev, Nanosleep c_timeout] @ t). benign ev" by simp
    ultimately show ?thesis by blast
  qed
qed

lemma onFlush_loop_settles:
  assumes acc: "\<forall>t s d n. K \<le> length t \<longrightarrow> fst (send env t s d n) = uint n"
    and ben: "\<forall>t s d n. benign (Send s d n (fst (send env t s d n)) (snd (send env t s d n)))"
    and drains: "\<forall>rb. fst (getBlock env rb QS_TX_CHUNK) \<noteq> 0 \<longrightarrow>
       \<mu> (snd (snd (getBlock env rb QS_TX_CHUNK))) < (\<mu> rb :: nat)"
  shows "\<exists>w' t. onFlush_loop env w QS_TX_CHUNK = Some w' \<and> trace w' = trace w @ t \<and>
           (\<forall>ev\<in>set t. benign ev)"
proof (induction "\<mu> (qs_rb w)" arbitrary: w rule: less_induct)
  case less
  let ?g = "getBlock env (qs_rb w) QS_TX_CHUNK"
  let ?d = "fst ?g"
  let ?n = "fst (snd ?g)"
  let ?rb = "snd (snd ?g)"
  let ?w1 = "emit Crit_X (emit (GetBlock QS_TX_CHUNK ?d ?n) (w\<lparr>qs_rb := ?rb\<rparr>))"
  have tr1: "trace ?w1 = trace w @ [GetBlock QS_TX_CHUNK ?d ?n, Crit_X]"
    by (simp add: emit_def)
  have rb1: "qs_rb ?w1 = ?rb" by (simp add: emit_def)
  show ?case
  proof (cases "?d = 0")
    case True
    from onFlush_loop_empty [OF True] True
    have "onFlush_loop env w QS_TX_CHUNK = Some ?w1" by simp
    with tr1 show ?thesis by (intro exI [of _ ?w1] exI [of _ "[GetBlock QS_TX_CHUNK ?d ?n, Crit_X]"]) simp
  next
    case False
    from onFlush_send_settles [OF acc ben, of ?w1 ?d ?n] obtain t where
      t: "onFlush_send env ?w1 ?d ?n = Some (Break, after ?w1 t)" "\<forall>ev\<in>set t. benign ev"
      by blast
    let ?w2 = "emit Crit_E (after ?w1 t)"
    have rb2: "qs_rb ?w2 = ?rb" using rb1 by (simp add: emit_after)
    from drains False have "\<mu> ?rb < \<mu> (qs_rb w)" by blast
    with rb2 have "\<mu> (qs_rb ?w2) < \<mu> (qs_rb w)" by simp
    from less [OF this] obtain w' t' where
      w': "onFlush_loop env ?w2 QS_TX_CHUNK = Some w'" "trace w' = trace ?w2 @ t'"
        "\<forall>ev\<in>set t'. benign ev" by blast
    have "onFlush_loop env w QS_TX_CHUNK = Some w'"
      using False t(1) w'(1) by (subst onFlush_loop.simps) (simp add: Let_def)
    moreover have "trace w' = trace w @ ([GetBlock QS_TX_CHUNK ?d ?n, Crit_X] @ t @ [Crit_E] @ t')"
      using w'(2) tr1 by (simp add: emit_after)
    moreover have "\<forall>ev\<in>set ([GetBlock QS_TX_CHUNK ?d ?n, Crit_X] @ t @ [Crit_E] @ t'). benign ev"
      using t(2) w'(3) by auto
    ultimately show ?thesis by blast
  qed
qed

lemma single_accepted:
  "single s q t \<Longrightarrow> \<forall>ev\<in>set t. benign ev \<Longrightarrow> accepted mem t = fetched mem t"
proof (induction rule: single.induct)
  case (single_empty s q n)
  show ?case by (simp add: accepted_def fetched_def)
next
  case (single_chunk d s n t out q)
  then have "\<forall>ev\<in>set t. benign ev" by simp
  from retry_accepted [OF single_chunk(2) this, of mem] single_chunk(1)
  show ?case by (simp add: accepted_Cons fetched_Cons)
qed

lemma run_accepted:
  assumes "onFlush env w = Some w' \<or> QS_output env w = Some w'"
    and "trace w' = trace w @ t" and "\<forall>ev\<in>set t. benign ev"
  shows "accepted mem t = fetched mem t"
proof (cases "l_sock w = INVALID_SOCKET")
  case True
  from run_invalid [OF assms(1) True] assms(2) have "t = [Stderr Invalid_socket]" by simp
  then show ?thesis by (simp add: accepted_def fetched_def)
next
  case False
  from run_shape [OF assms(1) False] obtain u where
    u: "changed w w' (Crit_E # u)"
      "drain (l_sock w) QS_TX_CHUNK u \<or> single (l_sock w) QS_TX_CHUNK u" by blast
  from u(1) assms(2) have t: "t = Crit_E # u" by (simp add: changed_def)
  with assms(3) have b: "\<forall>ev\<in>set u. benign ev" by simp
  from u(2) b have "accepted mem u = fetched mem u"
    using drain_accepted single_accepted by blast
  then show ?thesis by (simp add: t accepted_Cons fetched_Cons)
qed

lemma onFlush_settles:
  assumes acc: "\<forall>t s d n. K \<le> length t \<longrightarrow> fst (send env t s d n) = uint n"
    and ben: "\<forall>t s d n. benign (Send s d n (fst (send env t s d n)) (snd (send env t s d n)))"
    and drains: "\<forall>rb. fst (getBlock env rb QS_TX_CHUNK) \<noteq> 0 \<longrightarrow>
       \<mu> (snd (snd (getBlock env rb QS_TX_CHUNK))) < (\<mu> rb :: nat)"
  shows "\<exists>w' t. onFlush env w = Some w' \<and> trace w' = trace w @ t \<and>
           accepted mem t = fetched mem t"
proof (cases "l_sock w = INVALID_SOCKET")
  case True
  then have "onFlush env w = Some (after w [Stderr Invalid_socket])"
    by (simp add: onFlush_invalid emit_after)
  moreover have "accepted mem [Stderr Invalid_socket] = fetched mem [Stderr Invalid_socket]"
    by (simp add: accepted_def fetched_def)
  ultimately show ?thesis by (intro exI [of _ "after w [Stderr Invalid_socket]"]
        exI [of _ "[Stderr Invalid_socket]"]) simp
next
  case False
  from onFlush_loop_settles [OF acc ben drains, of "emit Crit_E w"] obtain w' t where
    w': "onFlush_loop env (emit Crit_E w) QS_TX_CHUNK = Some w'"
      "trace w' = trace (emit Crit_E w) @ t" "\<forall>ev\<in>set t. benign ev" by blast
  from False w'(1) have run: "onFlush env w = Some w'" by (simp add: onFlush_def)
  from w'(2) have tr: "trace w' = trace w @ (Crit_E # t)" by (simp add: emit_after)
  from w'(3) have "\<forall>ev\<in>set (Crit_E # t). benign ev" by simp
  from run_accepted [OF disjI1 [OF run] tr this] run tr show ?thesis by blast
qed

lemma run_C: "onFlush (test_env send_C) world_A = Some world_A_end"
  by (simp add: world_A_def world_A_end_def onFlush_def onFlush_loop_unfold onFlush_send.simps Let_def
      test_env_def test_world_def send_C_def trace_A_def rb_getBlock_def emit_def
      INVALID_SOCKET_def SOCKET_ERROR_def EAGAIN_def EWOULDBLOCK_def QS_TX_CHUNK_def
      QS_TX_SIZE_def c_timeout_def QS_TIMEOUT_MS_def)

lemma rb_getBlock_drains:
  "fst (rb_getBlock rb QS_TX_CHUNK) \<noteq> 0 \<longrightarrow>
     rb_bytes (snd (snd (rb_getBlock rb QS_TX_CHUNK))) < rb_bytes rb"
proof (cases rb)
  case Nil
  then show ?thesis by (simp add: rb_getBlock_def)
next
  case (Cons c rest)
  obtain d n where c: "c = (d, n)" by (cases c)
  show ?thesis
  proof (cases "n \<le> QS_TX_CHUNK")
    case True
    with Cons c show ?thesis by (simp add: rb_getBlock_def rb_bytes_def)
  next
    case False
    then have le: "QS_TX_CHUNK \<le> n" by simp
    have q: "unat QS_TX_CHUNK = 8192" by (simp add: QS_TX_CHUNK_def QS_TX_SIZE_def)
    from le have "unat (n - QS_TX_CHUNK) = unat n - unat QS_TX_CHUNK" by (rule unat_sub)
    moreover from le have "unat QS_TX_CHUNK \<le> unat n" by (simp add: word_le_nat_alt)
    ultimately have "unat (n - QS_TX_CHUNK) < unat n" using q by simp
    with Cons c False show ?thesis by (simp add: rb_getBlock_def rb_bytes_def)
  qed
qed


section \<open>The claims\<close>

text \<open>
  C1. \<^verbatim>\<open>QS::onFlush\<close>. First part: in a completed call in which every send attempt either
  reports would-block or accepts between 0 and the requested number of bytes, the bytes
  accepted by the socket, in the order of the send attempts, are the bytes of the chunks
  returned by \<^verbatim>\<open>getBlock\<close>, in the order they were returned: nothing is dropped,
  duplicated or reordered. \<open>mem\<close> is the content of the memory the chunks lie in. Second
  part: the call does complete. If the ring buffer runs empty (some measure \<open>rank\<close> of its
  state decreases with every chunk it hands out), every answer of the socket is
  would-block or a count between 0 and the requested one, and the socket accepts all it
  is given once \<open>K\<close> events have happened, then the call returns, and the bytes accepted
  are the bytes fetched, whichever of the earlier attempts reported would-block or
  accepted a part only.
\<close>

theorem flush_delivers_chunks_in_order:
  "(onFlush env w = Some w' \<longrightarrow> trace w' = trace w @ t \<longrightarrow> (\<forall>ev\<in>set t. benign ev) \<longrightarrow>
      accepted mem t = fetched mem t) \<and>
   ((\<forall>rb. fst (getBlock env rb QS_TX_CHUNK) \<noteq> 0 \<longrightarrow>
        rank (snd (snd (getBlock env rb QS_TX_CHUNK))) < (rank rb :: nat)) \<longrightarrow>
    (\<forall>tr s d n. benign (Send s d n (fst (send env tr s d n)) (snd (send env tr s d n)))) \<longrightarrow>
    (\<forall>tr s d n. K \<le> length tr \<longrightarrow> fst (send env tr s d n) = uint n) \<longrightarrow>
      (\<exists>w1 t1. onFlush env w = Some w1 \<and> trace w1 = trace w @ t1 \<and>
         accepted mem t1 = fetched mem t1))"
proof (intro conjI impI)
  assume run: "onFlush env w = Some w'" and tr: "trace w' = trace w @ t"
    and b: "\<forall>ev\<in>set t. benign ev"
  from run have "onFlush env w = Some w' \<or> QS_output env w = Some w'" ..
  from run_accepted [OF this tr b] show "accepted mem t = fetched mem t" .
next
  assume "\<forall>rb. fst (getBlock env rb QS_TX_CHUNK) \<noteq> 0 \<longrightarrow>
        rank (snd (snd (getBlock env rb QS_TX_CHUNK))) < rank rb"
    and "\<forall>tr s d n. benign (Send s d n (fst (send env tr s d n)) (snd (send env tr s d n)))"
    and "\<forall>tr s d n. K \<le> length tr \<longrightarrow> fst (send env tr s d n) = uint n"
  from onFlush_settles [OF this(3) this(2) this(1)]
  show "\<exists>w1 t1. onFlush env w = Some w1 \<and> trace w1 = trace w @ t1 \<and>
         accepted mem t1 = fetched mem t1" .
qed

theorem flush_delivers_chunks_in_order_witness:
  "onFlush (test_env send_A) world_A = Some world_A_end \<and>
   trace world_A_end = trace world_A @ trace_A \<and>
   list_all benign trace_A \<and>
   accepted (\<lambda>a. word_of_int a) trace_A = fetched (\<lambda>a. word_of_int a) trace_A \<and>
   fetched (\<lambda>a. word_of_int a) trace_A = [100, 101, 102, 103, 104, 200, 201, 202, 203] \<and>
   (\<forall>rb. fst (getBlock (test_env send_C) rb QS_TX_CHUNK) = 0 \<or>
      rb_bytes (snd (snd (getBlock (test_env send_C) rb QS_TX_CHUNK))) < rb_bytes rb) \<and>
   (\<forall>tr s d n. benign (Send s d n (fst (send (test_env send_C) tr s d n))
      (snd (send (test_env send_C) tr s d n)))) \<and>
   (\<forall>tr s d n. length tr < 6 \<or> fst (send (test_env send_C) tr s d n) = uint n) \<and>
   (\<exists>w1 t1. onFlush (test_env send_C) world_A = Some w1 \<and> trace w1 = trace world_A @ t1 \<and>
      accepted (\<lambda>a. word_of_int a) t1 = fetched (\<lambda>a. word_of_int a) t1) \<and>
   onFlush (test_env send_C) world_A = Some world_A_end"
proof -
  have tr: "trace world_A_end = trace world_A @ trace_A"
    by (simp add: world_A_def world_A_end_def test_world_def)
  have b: "\<forall>ev\<in>set trace_A. benign ev"
    by (simp add: trace_A_def SOCKET_ERROR_def would_block_def EAGAIN_def)
  note T1 = flush_delivers_chunks_in_order
    [where env = "test_env send_A" and w = world_A and w' = world_A_end and t = trace_A
       and mem = "\<lambda>a. word_of_int a", THEN conjunct1]
  note c = T1 [THEN mp, OF run_A, THEN mp, OF tr, THEN mp, OF b]
  have f: "fetched (\<lambda>a. word_of_int a) trace_A = [100, 101, 102, 103, 104, 200, 201, 202, 203]"
    by (simp add: fetched_def trace_A_def span_def upt_rec)
  have g: "getBlock (test_env send_C) = rb_getBlock" by (simp add: test_env_def)
  have hA: "\<forall>rb. fst (getBlock (test_env send_C) rb QS_TX_CHUNK) \<noteq> 0 \<longrightarrow>
      rb_bytes (snd (snd (getBlock (test_env send_C) rb QS_TX_CHUNK))) < rb_bytes rb"
    unfolding g using rb_getBlock_drains by blast
  have hB: "\<forall>tr s d n. benign (Send s d n (fst (send (test_env send_C) tr s d n))
      (snd (send (test_env send_C) tr s d n)))"
    by (simp add: test_env_def send_C_def SOCKET_ERROR_def would_block_def EAGAIN_def)
  have hC: "\<forall>tr s d n. 6 \<le> length tr \<longrightarrow> fst (send (test_env send_C) tr s d n) = uint n"
    by (simp add: test_env_def send_C_def)
  note T2 = flush_delivers_chunks_in_order
    [where env = "test_env send_C" and w = world_A and rank = rb_bytes and K = 6
       and mem = "\<lambda>a. word_of_int a", THEN conjunct2]
  note r = T2 [THEN mp, OF hA, THEN mp, OF hB, THEN mp, OF hC]
  have hA': "\<forall>rb. fst (getBlock (test_env send_C) rb QS_TX_CHUNK) = 0 \<or>
      rb_bytes (snd (snd (getBlock (test_env send_C) rb QS_TX_CHUNK))) < rb_bytes rb"
    using hA by blast
  have hC': "\<forall>tr s d n. length tr < 6 \<or> fst (send (test_env send_C) tr s d n) = uint n"
    using hC not_le_imp_less by blast
  show ?thesis
    using run_A tr b [folded list_all_iff] c f hA' hB hC' r run_C by (intro conjI) assumption+
qed





text \<open>
  C6. A send attempt of \<^verbatim>\<open>QS::onFlush\<close> that fails with an error other than would-block
  ends the call: in a completed call the only event after it is the diagnostic of that
  error, no diagnostic precedes it, and \<^verbatim>\<open>l_sock\<close> is unchanged. The second part is that
  the call does return: from any state of the retry loop, such a failure of the attempt
  made there makes the loop return at once.
\<close>

theorem hard_error_aborts_flush:
  "(onFlush env w = Some w' \<longrightarrow>
      trace w' = trace w @ pre @ Send s d n SOCKET_ERROR e # post \<longrightarrow> \<not> would_block e \<longrightarrow>
        post = [Stderr (Send_error e)] \<and> (\<forall>x\<in>set pre. \<not> is_Stderr x) \<and>
        l_sock w' = l_sock w) \<and>
   (fst (send env (trace v) (l_sock v) a b) = SOCKET_ERROR \<longrightarrow>
      \<not> would_block (snd (send env (trace v) (l_sock v) a b)) \<longrightarrow>
        (\<exists>v'. onFlush_send env v a b = Some (Return, v') \<and>
           trace v' = trace v @
             [Send (l_sock v) a b SOCKET_ERROR (snd (send env (trace v) (l_sock v) a b)),
              Stderr (Send_error (snd (send env (trace v) (l_sock v) a b)))] \<and>
           l_sock v' = l_sock v))"
proof (intro conjI impI)
  assume run: "onFlush env w = Some w'"
    and tr: "trace w' = trace w @ pre @ Send s d n SOCKET_ERROR e # post"
    and hard: "\<not> would_block e"
  from onFlush_abort_ok [OF run tr] have o: "occ abort_ok (pre @ Send s d n SOCKET_ERROR e # post)"
    and l: "l_sock w' = l_sock w" by simp_all
  from occD [OF o refl] have "abort_ok pre (Send s d n SOCKET_ERROR e) post" .
  with hard l show "post = [Stderr (Send_error e)]" "\<forall>x\<in>set pre. \<not> is_Stderr x"
    "l_sock w' = l_sock w" by (simp_all add: abort_ok_def)
next
  assume "fst (send env (trace v) (l_sock v) a b) = SOCKET_ERROR"
    and "\<not> would_block (snd (send env (trace v) (l_sock v) a b))"
  from onFlush_send_hard [OF this]
  show "\<exists>v'. onFlush_send env v a b = Some (Return, v') \<and>
           trace v' = trace v @
             [Send (l_sock v) a b SOCKET_ERROR (snd (send env (trace v) (l_sock v) a b)),
              Stderr (Send_error (snd (send env (trace v) (l_sock v) a b)))] \<and>
           l_sock v' = l_sock v" by simp
qed

theorem hard_error_aborts_flush_witness:
  "onFlush (test_env send_B) world_A = Some world_B_end \<and>
   trace world_B_end = trace world_A @
     [Crit_E, GetBlock 8192 100 5, Crit_X, Send 3 100 5 2 0, Nanosleep (0, 10000000)] @
     Send 3 102 3 SOCKET_ERROR 104 # [Stderr (Send_error 104)] \<and>
   \<not> would_block 104 \<and>
   [Stderr (Send_error 104)] = [Stderr (Send_error 104)] \<and>
   list_all (\<lambda>x. \<not> is_Stderr x)
     [Crit_E, GetBlock 8192 100 5, Crit_X, Send 3 100 5 2 0, Nanosleep (0, 10000000)] \<and>
   l_sock world_B_end = l_sock world_A \<and>
   fst (send (test_env send_B) (trace world_B_mid) (l_sock world_B_mid) 102 3) = SOCKET_ERROR \<and>
   \<not> would_block (snd (send (test_env send_B) (trace world_B_mid) (l_sock world_B_mid) 102 3)) \<and>
   (\<exists>v'. onFlush_send (test_env send_B) world_B_mid 102 3 = Some (Return, v') \<and>
      trace v' = trace world_B_mid @
        [Send (l_sock world_B_mid) 102 3 SOCKET_ERROR
           (snd (send (test_env send_B) (trace world_B_mid) (l_sock world_B_mid) 102 3)),
         Stderr (Send_error
           (snd (send (test_env send_B) (trace world_B_mid) (l_sock world_B_mid) 102 3)))] \<and>
      l_sock v' = l_sock world_B_mid)"
proof -
  have tr: "trace world_B_end = trace world_A @
     [Crit_E, GetBlock 8192 100 5, Crit_X, Send 3 100 5 2 0, Nanosleep (0, 10000000)] @
     Send 3 102 3 SOCKET_ERROR 104 # [Stderr (Send_error 104)]"
    by (simp add: world_A_def world_B_end_def test_world_def trace_B_def SOCKET_ERROR_def)
  have h: "\<not> would_block 104"
    by (simp add: would_block_def EAGAIN_def EWOULDBLOCK_def)
  have s1: "fst (send (test_env send_B) (trace world_B_mid) (l_sock world_B_mid) 102 3) =
      SOCKET_ERROR"
    by (simp add: test_env_def send_B_def world_B_mid_def test_world_def trace_B_def
        SOCKET_ERROR_def)
  have s2: "\<not> would_block
      (snd (send (test_env send_B) (trace world_B_mid) (l_sock world_B_mid) 102 3))"
    by (simp add: test_env_def send_B_def world_B_mid_def test_world_def trace_B_def
        would_block_def EAGAIN_def EWOULDBLOCK_def)
  note T = hard_error_aborts_flush [of "test_env send_B" world_A world_B_end
      "[Crit_E, GetBlock 8192 100 5, Crit_X, Send 3 100 5 2 0, Nanosleep (0, 10000000)]"
      3 102 3 104 "[Stderr (Send_error 104)]" world_B_mid 102 3]
  note A = T [THEN conjunct1, THEN mp, OF run_B, THEN mp, OF tr, THEN mp, OF h]
  note B = T [THEN conjunct2, THEN mp, OF s1, THEN mp, OF s2]
  show ?thesis
    using run_B tr h A [THEN conjunct1] A [THEN conjunct2, THEN conjunct1, folded list_all_iff]
      A [THEN conjunct2, THEN conjunct2] s1 s2 B
    by (intro conjI) assumption+
qed

text \<open>
  C9. \<^verbatim>\<open>QS::onGetTime\<close> turns a clock reading of \<open>s\<close> seconds and \<open>ns\<close> nanoseconds
  (\<open>0 \<le> ns < 10\<^sup>9\<close>) into \<open>s * 10000000 + ns div 100\<close>, cast to \<^verbatim>\<open>QSTimeCtr\<close>. For two
  readings of which the second is not earlier, that number does not decrease; the
  returned counters differ by the elapsed number of units modulo the width of
  \<^verbatim>\<open>QSTimeCtr\<close>, and they are ordered whenever no wrap-around lies between the two.
\<close>

theorem onGetTime_monotone:
  assumes "ts_valid a" and "ts_valid b" and "ts_le a b"
  shows "(onGetTime a :: 'w::len word) = word_of_int (tv_sec a * 10000000 + tv_nsec a div 100) \<and>
         ticks a \<le> ticks b \<and>
         (onGetTime b - onGetTime a :: 'w word) = word_of_int (ticks b - ticks a) \<and>
         (ticks a div 2 ^ LENGTH('w) = ticks b div 2 ^ LENGTH('w) \<longrightarrow>
            (onGetTime a :: 'w word) \<le> onGetTime b)"
proof (intro conjI impI)
  show "(onGetTime a :: 'w word) = word_of_int (tv_sec a * 10000000 + tv_nsec a div 100)"
    using onGetTime_ticks [OF assms(1)] by (simp add: ticks_def)
  show "ticks a \<le> ticks b" by (rule ticks_mono [OF assms])
  show "(onGetTime b - onGetTime a :: 'w word) = word_of_int (ticks b - ticks a)"
    by (simp add: onGetTime_ticks [OF assms(1)] onGetTime_ticks [OF assms(2)])
next
  assume "ticks a div 2 ^ LENGTH('w) = ticks b div 2 ^ LENGTH('w)"
  with ticks_mono [OF assms] show "(onGetTime a :: 'w word) \<le> onGetTime b"
    by (simp add: onGetTime_ticks [OF assms(1)] onGetTime_ticks [OF assms(2)]
        word_of_int_le_same_window)
qed

theorem onGetTime_monotone_witness:
  "ts_valid reading_1 \<and> ts_valid reading_2 \<and> ts_le reading_1 reading_2 \<and>
   (onGetTime reading_1 :: 32 word) = word_of_int (tv_sec reading_1 * 10000000 + tv_nsec reading_1 div 100) \<and>
   ticks reading_1 \<le> ticks reading_2 \<and>
   (onGetTime reading_2 - onGetTime reading_1 :: 32 word) = word_of_int (ticks reading_2 - ticks reading_1) \<and>
   ticks reading_1 div 2 ^ LENGTH(32) = ticks reading_2 div 2 ^ LENGTH(32) \<and>
   (onGetTime reading_1 :: 32 word) \<le> onGetTime reading_2"
proof -
  have v1: "ts_valid reading_1" by (simp add: ts_valid_def reading_1_def)
  have v2: "ts_valid reading_2" by (simp add: ts_valid_def reading_2_def)
  have le: "ts_le reading_1 reading_2" by (simp add: ts_le_def reading_1_def reading_2_def)
  have w: "ticks reading_1 div 2 ^ LENGTH(32) = ticks reading_2 div 2 ^ LENGTH(32)"
    by (simp add: ticks_def reading_1_def reading_2_def)
  note T = onGetTime_monotone [OF v1 v2 le, where 'w = 32]
  show ?thesis
    using v1 v2 le T [THEN conjunct1] T [THEN conjunct2, THEN conjunct1]
      T [THEN conjunct2, THEN conjunct2, THEN conjunct1] w
      T [THEN conjunct2, THEN conjunct2, THEN conjunct2, THEN mp, OF w]
    by (intro conjI) assumption+
qed

text \<open>
  C5, as amended. Endpoint parsing in \<^verbatim>\<open>QS::onStartup\<close>, for any initial content of the
  128-byte \<^verbatim>\<open>hostName\<close>: \<^verbatim>\<open>"example.org:7000"\<close> gives host \<^verbatim>\<open>example.org\<close> and service
  \<^verbatim>\<open>7000\<close>; \<^verbatim>\<open>"example.org"\<close> gives host \<^verbatim>\<open>example.org\<close> and the default service \<^verbatim>\<open>6601\<close>; no
  configuration string gives host \<^verbatim>\<open>localhost\<close> and service \<^verbatim>\<open>6601\<close>; and for every input the
  host is the first 127 characters of the host portion (the characters before the first
  colon or NUL), while the text after the colon is the service whenever the host portion
  is at most 127 characters long. The claim as written also promises the service for a
  longer host portion; the last theorem of this group is an input of 128 characters and
  \<^verbatim>\<open>:7000\<close> for which the code returns the default service instead.
\<close>

theorem parse_endpoint_result:
  assumes "length hostName = sizeof_hostName"
  shows "(\<exists>h. parse_endpoint (Some ''example.org:7000'') hostName = Inr (h, ''7000'') \<and>
            cstr h = ''example.org'') \<and>
         (\<exists>h. parse_endpoint (Some ''example.org'') hostName = Inr (h, ''6601'') \<and>
            cstr h = ''example.org'') \<and>
         (\<exists>h. parse_endpoint None hostName = Inr (h, ''6601'') \<and> cstr h = ''localhost'') \<and>
         (\<exists>h s. parse_endpoint (Some a) hostName = Inr (h, s) \<and>
            cstr h = take 127 (host_part a) \<and>
            (length (host_part a) \<le> 127 \<longrightarrow>
               s = (if c_at a (length (host_part a)) = CHR '':''
                    then cstr_from a (length (host_part a) + 1) else ''6601'')))"
proof (intro conjI)
  have 1: "host_part ''example.org:7000'' = ''example.org''"
    by (simp add: host_part_def NUL_def)
  show "\<exists>h. parse_endpoint (Some ''example.org:7000'') hostName = Inr (h, ''7000'') \<and>
            cstr h = ''example.org''"
    by (simp add: parse_endpoint_eq [OF assms] 1 Let_def c_at_def cstr_from_def cstr_def NUL_def)
  have 2: "host_part ''example.org'' = ''example.org''"
    by (simp add: host_part_def NUL_def)
  show "\<exists>h. parse_endpoint (Some ''example.org'') hostName = Inr (h, ''6601'') \<and>
            cstr h = ''example.org''"
    by (simp add: parse_endpoint_eq [OF assms] 2 Let_def c_at_def cstr_def NUL_def)
  have 3: "host_part ''localhost'' = ''localhost''"
    by (simp add: host_part_def NUL_def)
  show "\<exists>h. parse_endpoint None hostName = Inr (h, ''6601'') \<and> cstr h = ''localhost''"
    by (simp add: parse_endpoint_eq [OF assms] 3 Let_def c_at_def cstr_def NUL_def)
  show "\<exists>h s. parse_endpoint (Some a) hostName = Inr (h, s) \<and>
            cstr h = take 127 (host_part a) \<and>
            (length (host_part a) \<le> 127 \<longrightarrow>
               s = (if c_at a (length (host_part a)) = CHR '':''
                    then cstr_from a (length (host_part a) + 1) else ''6601''))"
    by (simp add: parse_endpoint_eq [OF assms] Let_def cstr_host)
qed

theorem parse_endpoint_result_witness:
  "length (replicate 128 (CHR ''x'')) = sizeof_hostName \<and>
   length (host_part ''qspy:7701'') \<le> 127 \<and>
   (\<exists>h. parse_endpoint (Some ''qspy:7701'') (replicate 128 (CHR ''x'')) = Inr (h, ''7701'') \<and>
      cstr h = ''qspy'')"
proof -
  have l: "length (replicate 128 (CHR ''x'')) = sizeof_hostName"
    by (simp add: sizeof_hostName_def)
  have hp: "host_part ''qspy:7701'' = ''qspy''"
    by (simp add: host_part_def NUL_def)
  note T = parse_endpoint_result [OF l, of "''qspy:7701''"]
  from T [THEN conjunct2, THEN conjunct2, THEN conjunct2] obtain h s where
    p: "parse_endpoint (Some ''qspy:7701'') (replicate 128 (CHR ''x'')) = Inr (h, s)"
    and c: "cstr h = take 127 (host_part ''qspy:7701'')"
    and s: "length (host_part ''qspy:7701'') \<le> 127 \<longrightarrow>
      s = (if c_at ''qspy:7701'' (length (host_part ''qspy:7701'')) = CHR '':''
           then cstr_from ''qspy:7701'' (length (host_part ''qspy:7701'') + 1) else ''6601'')"
    by blast
  have le: "length (host_part ''qspy:7701'') \<le> 127" by (simp add: hp)
  from s [THEN mp, OF le] have "s = ''7701''"
    by (simp add: hp c_at_def cstr_from_def cstr_def NUL_def)
  moreover from c have "cstr h = ''qspy''" by (simp add: hp)
  ultimately show ?thesis using l le p by blast
qed

theorem overlong_host_service_counterexample:
  "map_sum id snd
     (parse_endpoint (Some (replicate 128 (CHR ''a'') @ '':7000'')) (replicate 128 (CHR ''x''))) =
     Inr ''6601'' \<and>
   map_sum id snd
     (parse_endpoint (Some (replicate 128 (CHR ''a'') @ '':7000'')) (replicate 128 (CHR ''x''))) \<noteq>
     Inr ''7000'' \<and>
   map_sum id (cstr \<circ> fst)
     (parse_endpoint (Some (replicate 128 (CHR ''a'') @ '':7000'')) (replicate 128 (CHR ''x''))) =
     Inr (replicate 127 (CHR ''a''))"
proof -
  have l: "length (replicate 128 (CHR ''x'')) = sizeof_hostName"
    by (simp add: sizeof_hostName_def)
  have hp: "host_part (replicate 128 (CHR ''a'') @ '':7000'') = replicate 128 (CHR ''a'')"
  proof -
    have "takeWhile (\<lambda>c. c \<noteq> NUL \<and> c \<noteq> CHR '':'') (replicate 128 (CHR ''a'') @ '':7000'') =
        replicate 128 (CHR ''a'') @ takeWhile (\<lambda>c. c \<noteq> NUL \<and> c \<noteq> CHR '':'') '':7000''"
      by (rule takeWhile_append2) (simp add: NUL_def)
    then show ?thesis by (simp add: host_part_def)
  qed
  have t: "take 127 (replicate 128 (CHR ''a'')) = replicate 127 (CHR ''a'')" by simp
  have c: "c_at (replicate 128 (CHR ''a'') @ '':7000'') 127 = CHR ''a''"
    by (simp add: c_at_def nth_append)
  have cs: "cstr (replicate 127 (CHR ''a'') @ NUL # r) = replicate 127 (CHR ''a'')" for r
    using cstr_host [of 127 "replicate 128 (CHR ''a'') @ '':7000''" r] by (simp only: hp t)
  show ?thesis
    by (simp add: parse_endpoint_eq [OF l] hp c cs Let_def)
qed

text \<open>
  C10. For every input string and every initial content of the 128-byte \<^verbatim>\<open>hostName\<close>, the
  host-extraction loop and the terminating store never write outside the array (the
  result is never the fault \<open>OutOfBounds\<close>): the characters copied occupy the indices
  below \<open>dst \<le> 127\<close>, the NUL is stored at \<open>dst\<close>, everything above \<open>dst\<close> is untouched, and
  the array read as a C string is exactly the copied characters. The same holds on both
  paths of \<^verbatim>\<open>arg\<close> (given or \<^verbatim>\<open>nullptr\<close>).
\<close>

theorem hostName_write_in_bounds:
  assumes "length hostName = sizeof_hostName"
  shows "(\<exists>src h dst. extract_host a hostName = Inr (src, h, dst) \<and> dst \<le> 127 \<and>
            length h = sizeof_hostName \<and> h ! dst = NUL \<and>
            drop (Suc dst) h = drop (Suc dst) hostName \<and> cstr h = take dst h) \<and>
         (\<exists>h s. parse_endpoint arg hostName = Inr (h, s) \<and> length h = sizeof_hostName \<and>
            NUL \<in> set h)"
  using extract_host_props [OF assms] parse_endpoint_props [OF assms] by blast

theorem hostName_write_in_bounds_witness:
  "length (replicate 128 (CHR ''x'')) = sizeof_hostName \<and>
   (\<exists>src h dst. extract_host (replicate 200 (CHR ''a'') @ '':7000'') (replicate 128 (CHR ''x'')) =
        Inr (src, h, dst) \<and> dst \<le> 127 \<and>
      length h = sizeof_hostName \<and> h ! dst = NUL \<and>
      drop (Suc dst) h = drop (Suc dst) (replicate 128 (CHR ''x'')) \<and> cstr h = take dst h) \<and>
   (\<exists>h s. parse_endpoint (Some (replicate 200 (CHR ''a'') @ '':7000'')) (replicate 128 (CHR ''x'')) =
        Inr (h, s) \<and> length h = sizeof_hostName \<and> NUL \<in> set h)"
proof -
  have l: "length (replicate 128 (CHR ''x'')) = sizeof_hostName"
    by (simp add: sizeof_hostName_def)
  from l hostName_write_in_bounds [OF l] show ?thesis by blast
qed

text \<open>
  C8. \<^verbatim>\<open>QS_output\<close> is one iteration of the drain loop of \<^verbatim>\<open>QS::onFlush\<close>. On a valid
  socket, \<^verbatim>\<open>QS::onFlush\<close> is \<^verbatim>\<open>QS_output\<close> followed, when the chunk was sent completely (the
  last event is a send), by \<^verbatim>\<open>QS::onFlush\<close> again, and by nothing otherwise; the two retry
  loops are the same function; a completed \<^verbatim>\<open>QS_output\<close> calls \<^verbatim>\<open>getBlock\<close> exactly once,
  with \<^verbatim>\<open>QS_TX_CHUNK\<close>; when \<^verbatim>\<open>getBlock\<close> returns no chunk it only leaves the critical
  section, with no send and \<^verbatim>\<open>l_sock\<close> unchanged; and when the ring buffer yields exactly
  one chunk the two entry points make the same sequence of send attempts (or both never
  return).
\<close>

theorem QS_output_is_one_iteration:
  assumes "l_sock w \<noteq> INVALID_SOCKET"
  shows "onFlush env w =
           (case QS_output env w of
              None \<Rightarrow> None
            | Some w1 \<Rightarrow> if is_Send (last (trace w1)) then onFlush env w1 else Some w1) \<and>
         QS_output_send env v a b = onFlush_send env v a b \<and>
         (QS_output env w = Some w' \<longrightarrow>
            (\<exists>d n r. trace w' = trace w @ Crit_E # GetBlock QS_TX_CHUNK d n # Crit_X # r \<and>
               (\<forall>ev\<in>set r. \<not> is_GetBlock ev))) \<and>
         (fst (getBlock env (qs_rb w) QS_TX_CHUNK) = 0 \<longrightarrow>
            QS_output env w =
              Some (w\<lparr>qs_rb := snd (snd (getBlock env (qs_rb w) QS_TX_CHUNK)),
                     trace := trace w @
                       [Crit_E,
                        GetBlock QS_TX_CHUNK 0 (fst (snd (getBlock env (qs_rb w) QS_TX_CHUNK))),
                        Crit_X]\<rparr>)) \<and>
         (fst (getBlock env (qs_rb w) QS_TX_CHUNK) \<noteq> 0 \<longrightarrow>
          fst (getBlock env (snd (snd (getBlock env (qs_rb w) QS_TX_CHUNK))) QS_TX_CHUNK) = 0 \<longrightarrow>
            map_option sends (onFlush env w) = map_option sends (QS_output env w))"
  using onFlush_unroll [OF assms] QS_output_send_eq QS_output_one_fetch [OF assms]
    QS_output_empty [OF assms] one_chunk_same_sends [OF assms]
  by (intro conjI impI) assumption+

theorem QS_output_is_one_iteration_witness:
  "l_sock world_one \<noteq> INVALID_SOCKET \<and>
   QS_output (test_env send_A) world_one = Some world_one_end \<and>
   (\<exists>d n r. trace world_one_end =
        trace world_one @ Crit_E # GetBlock QS_TX_CHUNK d n # Crit_X # r \<and>
      list_all (\<lambda>ev. \<not> is_GetBlock ev) r) \<and>
   fst (getBlock (test_env send_A) (qs_rb world_one) QS_TX_CHUNK) \<noteq> 0 \<and>
   fst (getBlock (test_env send_A)
     (snd (snd (getBlock (test_env send_A) (qs_rb world_one) QS_TX_CHUNK))) QS_TX_CHUNK) = 0 \<and>
   map_option sends (onFlush (test_env send_A) world_one) =
     map_option sends (QS_output (test_env send_A) world_one) \<and>
   l_sock world_none \<noteq> INVALID_SOCKET \<and>
   fst (getBlock (test_env send_A) (qs_rb world_none) QS_TX_CHUNK) = 0 \<and>
   QS_output (test_env send_A) world_none =
     Some (world_none\<lparr>qs_rb := snd (snd (getBlock (test_env send_A) (qs_rb world_none) QS_TX_CHUNK)),
       trace := trace world_none @
         [Crit_E,
          GetBlock QS_TX_CHUNK 0
            (fst (snd (getBlock (test_env send_A) (qs_rb world_none) QS_TX_CHUNK))),
          Crit_X]\<rparr>)"
proof -
  have v1: "l_sock world_one \<noteq> INVALID_SOCKET"
    by (simp add: world_one_def test_world_def INVALID_SOCKET_def)
  have v0: "l_sock world_none \<noteq> INVALID_SOCKET"
    by (simp add: world_none_def test_world_def INVALID_SOCKET_def)
  have g1: "fst (getBlock (test_env send_A) (qs_rb world_one) QS_TX_CHUNK) \<noteq> 0"
    by (simp add: world_one_def test_world_def test_env_def rb_getBlock_def QS_TX_CHUNK_def
        QS_TX_SIZE_def)
  have g2: "fst (getBlock (test_env send_A)
     (snd (snd (getBlock (test_env send_A) (qs_rb world_one) QS_TX_CHUNK))) QS_TX_CHUNK) = 0"
    by (simp add: world_one_def test_world_def test_env_def rb_getBlock_def QS_TX_CHUNK_def
        QS_TX_SIZE_def)
  have g0: "fst (getBlock (test_env send_A) (qs_rb world_none) QS_TX_CHUNK) = 0"
    by (simp add: world_none_def test_world_def test_env_def rb_getBlock_def)
  note T1 = QS_output_is_one_iteration [OF v1, of "test_env send_A" world_one 100 5 world_one_end]
  note T0 = QS_output_is_one_iteration [OF v0, of "test_env send_A" world_none 100 5 world_none]
  note a = T1 [THEN conjunct2, THEN conjunct2, THEN conjunct1, THEN mp, OF run_one]
  note b = T1 [THEN conjunct2, THEN conjunct2, THEN conjunct2, THEN conjunct2, THEN mp, OF g1,
      THEN mp, OF g2]
  note c = T0 [THEN conjunct2, THEN conjunct2, THEN conjunct2, THEN conjunct1, THEN mp, OF g0]
  show ?thesis
    using v1 run_one a [folded list_all_iff] g1 g2 b v0 g0 c by (intro conjI) assumption+
qed

text \<open>
  C4. The connection loop of \<^verbatim>\<open>QS::onStartup\<close> skips a candidate on which \<^verbatim>\<open>socket\<close> fails
  (\<open>connect_loop_socket_fails\<close>), but it ends at the first candidate on which \<^verbatim>\<open>socket\<close>
  succeeds, whatever \<^verbatim>\<open>connect\<close> returns (\<open>connect_loop_socket_ok\<close>): the \<^verbatim>\<open>break\<close> follows
  the inner \<^verbatim>\<open>if\<close>. With two candidates, \<^verbatim>\<open>connect\<close> failing on the first and able to
  succeed on the second, the loop closes the first socket and stops: the second
  candidate is never attempted and \<^verbatim>\<open>l_sock\<close> is left invalid.
\<close>

theorem connect_failure_ends_iteration:
  "connect_loop env_C (test_world INVALID_SOCKET []) [cand_A, cand_B] =
     (test_world INVALID_SOCKET [])\<lparr>trace :=
        [Socket cand_A 3, Connect 3 cand_A SOCKET_ERROR, Close 3]\<rparr> \<and>
   socket env_C [Socket cand_A 3, Connect 3 cand_A SOCKET_ERROR, Close 3] cand_B = 3 \<and>
   connect env_C [Socket cand_A 3, Connect 3 cand_A SOCKET_ERROR, Close 3, Socket cand_B 3]
     3 cand_B = 0"
  by (simp add: env_C_def test_env_def test_world_def cand_A_def cand_B_def emit_def Let_def
      INVALID_SOCKET_def SOCKET_ERROR_def)

text \<open>
  C7. With \<^verbatim>\<open>l_sock == INVALID_SOCKET\<close>, \<^verbatim>\<open>QS::onFlush\<close> and \<^verbatim>\<open>QS_output\<close> write one diagnostic
  and do nothing else (\<open>onFlush_invalid\<close>, \<open>QS_output_invalid\<close>). \<^verbatim>\<open>QS_rx_input\<close> has no such
  check: it calls \<^verbatim>\<open>recv\<close> on the invalid handle and writes no diagnostic
  (\<open>rx_input_never_reports\<close>). The run below is that call with \<^verbatim>\<open>recv\<close> returning -1.
\<close>

theorem rx_input_on_invalid_socket:
  "QS_rx_input (test_env send_A) (test_world INVALID_SOCKET []) =
     (test_world INVALID_SOCKET [])\<lparr>trace := [Recv INVALID_SOCKET 0 (- 1)]\<rparr>"
  by (simp add: QS_rx_input_def test_env_def test_world_def emit_def Let_def INVALID_SOCKET_def)

end
